theory Spec2Isabelle
  imports Complex_Main
begin

section \<open>Python values\<close>

text \<open>
  A Python \<open>str\<close> is a sequence of Unicode code points; a code point is a natural
  number. \<open>asc\<close> writes an ASCII literal of the source as such a sequence.
\<close>

type_synonym pystr = "nat list"

definition asc :: "string \<Rightarrow> pystr" where
  "asc s = map of_char s"

text \<open>
  The registry (SIRENE) is read by \<open>load_csv\<close> with \<open>dtype=str\<close>: a cell of a text
  column is a \<open>str\<close>, or the float \<open>nan\<close> where the file has nothing.
\<close>

datatype cell = NaN | Str pystr

text \<open>\<open>str(v)\<close> and \<open>astype(str)\<close>: a string is itself, \<open>nan\<close> prints as \<open>'nan'\<close>.\<close>

fun py_str :: "cell \<Rightarrow> pystr" where
  "py_str NaN = asc ''nan''"
| "py_str (Str s) = s"

text \<open>\<open>pd.isna(v)\<close>.\<close>

fun isna :: "cell \<Rightarrow> bool" where
  "isna NaN = True"
| "isna (Str s) = False"

text \<open>
  Truth value of a cell in \<open>if v\<close> and \<open>v if v else w\<close>: a string is true when it is
  not empty; the float \<open>nan\<close> is true (only the number zero is false).
\<close>

fun truthy :: "cell \<Rightarrow> bool" where
  "truthy NaN = True"
| "truthy (Str s) = (s \<noteq> [])"

text \<open>
  The headquarters flag of a row is a Python \<open>bool\<close> in a data frame with a boolean
  column, and a text cell (\<open>'True'\<close>, \<open>'False'\<close>, or \<open>nan\<close>) in a data frame read by
  \<open>load_csv\<close>, whose \<open>dtype=str\<close> reads every column as text.
\<close>

datatype pyflag = PyBool bool | PyText cell

text \<open>The truth value of a flag in \<open>if est_siege\<close>.\<close>

fun flag_truthy :: "pyflag \<Rightarrow> bool" where
  "flag_truthy (PyBool b) = b"
| "flag_truthy (PyText c) = truthy c"

text \<open>
  The comparison \<open>flag == True\<close> of \<open>update_CRM\<close>: it holds for the \<open>bool\<close> \<open>True\<close>; a
  string, \<open>'True'\<close> included, and \<open>nan\<close> are not equal to \<open>True\<close>.
\<close>

fun flag_eq_True :: "pyflag \<Rightarrow> bool" where
  "flag_eq_True (PyBool b) = b"
| "flag_eq_True (PyText c) = False"

section \<open>Registry records\<close>

text \<open>
  One row of the registry data frame, with the columns \<open>updatev7.py\<close> reads: seven
  text columns, which hold cells, and the headquarters flag \<open>etablissementSiege\<close>.
\<close>

record sirene_row =
  siret :: cell
  siren :: cell
  nom_normalise :: cell
  libelleCommuneEtablissement :: cell
  codePostalEtablissement :: cell
  etatAdministratifEtablissement :: cell
  trancheEffectifsEtablissement :: cell
  etablissementSiege :: pyflag

section \<open>Headquarters lookup and the workforce resolver\<close>

text \<open>
  \<open>find_headquarters\<close>: the rows of \<open>sirene_head_subset\<close> whose \<open>siren\<close>, as a string,
  equals \<open>str(siren_code)\<close>; the first of them (\<open>iloc[0]\<close>), or \<open>None\<close>.
\<close>

definition find_headquarters :: "sirene_row list \<Rightarrow> cell \<Rightarrow> sirene_row option" where
  "find_headquarters sirene_head_subset siren_code =
     (case filter (\<lambda>h. py_str (siren h) = py_str siren_code) sirene_head_subset of
        [] \<Rightarrow> None
      | h # _ \<Rightarrow> Some h)"

text \<open>
  \<open>fill_effectif\<close> calls itself on the row that \<open>find_headquarters\<close> returns, with no
  bound on the depth, so it is a partial function: \<open>None\<close> is "the recursion never
  returns" (CPython ends it with a \<open>RecursionError\<close>).
\<close>

partial_function (option) fill_effectif :: "sirene_row \<Rightarrow> sirene_row list \<Rightarrow> cell option" where
  "fill_effectif sirene_record sirene_head_subset =
     (if etatAdministratifEtablissement sirene_record = Str (asc ''A'') then
        Some (if truthy (trancheEffectifsEtablissement sirene_record)
              then trancheEffectifsEtablissement sirene_record
              else Str (asc ''A PRECISER''))
      else if etatAdministratifEtablissement sirene_record = Str (asc ''F'') then
        (if flag_truthy (etablissementSiege sirene_record) then Some (Str (asc ''RADIEE''))
         else (case find_headquarters sirene_head_subset (siren sirene_record) of
                 Some siege \<Rightarrow> fill_effectif siege sirene_head_subset
               | None \<Rightarrow> Some (Str (asc ''A PRECISER''))))
      else Some (Str (asc ''A PRECISER'')))"

declare fill_effectif.simps [code]

section \<open>Blocking index\<close>

text \<open>
  \<open>create_sirene_by_dept\<close> keeps the rows whose status equals \<open>'A'\<close>, turns the postal
  code, \<open>siren\<close> and \<open>siret\<close> columns into strings (\<open>astype(str)\<close>) and groups the rows by
  \<open>dept\<close>, the slice \<open>[:2]\<close> of the postal code. A slice never fails: on a string of
  fewer than two characters it is the whole string.
\<close>

definition astype_str :: "sirene_row \<Rightarrow> sirene_row" where
  "astype_str r =
     r\<lparr>codePostalEtablissement := Str (py_str (codePostalEtablissement r)),
       siren := Str (py_str (siren r)),
       siret := Str (py_str (siret r))\<rparr>"

definition dept :: "sirene_row \<Rightarrow> pystr" where
  "dept r = take 2 (py_str (codePostalEtablissement r))"

definition active_rows :: "sirene_row list \<Rightarrow> sirene_row list" where
  "active_rows sirene_df =
     map astype_str
       (filter (\<lambda>r. etatAdministratifEtablissement r = Str (asc ''A'')) sirene_df)"

text \<open>
  The result is a dictionary from \<open>dept\<close> to the group of that key, the rows in the order
  of the data frame; \<open>groupby\<close> makes a group only for a key that some row has.
\<close>

definition create_sirene_by_dept :: "sirene_row list \<Rightarrow> (pystr \<rightharpoonup> sirene_row list)" where
  "create_sirene_by_dept sirene_df =
     (\<lambda>d. let rows = filter (\<lambda>r. dept r = d) (active_rows sirene_df)
          in if rows = [] then None else Some rows)"

text \<open>A row is retrievable from bucket \<open>d\<close> when the group stored under \<open>d\<close> holds it.\<close>

definition in_bucket :: "(pystr \<rightharpoonup> sirene_row list) \<Rightarrow> pystr \<Rightarrow> sirene_row \<Rightarrow> bool" where
  "in_bucket sirene_by_dept d r =
     (case sirene_by_dept d of None \<Rightarrow> False | Some rows \<Rightarrow> r \<in> set rows)"

section \<open>Example registry rows\<close>

text \<open>
  Two closed establishments of one company (the same \<open>siren\<close>), neither flagged as the
  headquarters. In the index \<open>[cycle_B, cycle_A]\<close> the headquarters found for \<open>cycle_A\<close>
  is \<open>cycle_B\<close>, and the one found for \<open>cycle_B\<close> is \<open>cycle_B\<close> again: the lookup goes by
  \<open>siren\<close> alone, so every reference cycle closes on the first row of that \<open>siren\<close>.
\<close>

definition cycle_A :: sirene_row where
  "cycle_A =
     \<lparr>siret = Str (asc ''00000000100027''), siren = Str (asc ''000000001''),
      nom_normalise = Str (asc ''acme''),
      libelleCommuneEtablissement = Str (asc ''LYON''),
      codePostalEtablissement = Str (asc ''69001''),
      etatAdministratifEtablissement = Str (asc ''F''),
      trancheEffectifsEtablissement = NaN, etablissementSiege = PyBool False\<rparr>"

definition cycle_B :: sirene_row where
  "cycle_B = cycle_A\<lparr>siret := Str (asc ''00000000100019'')\<rparr>"

text \<open>A closed headquarters, and active establishments whose bracket is \<open>'12'\<close>, missing
  (\<open>nan\<close>) and the empty string.\<close>

definition closed_hq :: sirene_row where
  "closed_hq = cycle_A\<lparr>etablissementSiege := PyBool True\<rparr>"

definition active_12 :: sirene_row where
  "active_12 =
     cycle_A\<lparr>etatAdministratifEtablissement := Str (asc ''A''),
             trancheEffectifsEtablissement := Str (asc ''12'')\<rparr>"

definition active_blank :: sirene_row where
  "active_blank = cycle_A\<lparr>etatAdministratifEtablissement := Str (asc ''A'')\<rparr>"

definition active_empty :: sirene_row where
  "active_empty = active_blank\<lparr>trancheEffectifsEtablissement := Str []\<rparr>"

text \<open>
  The same company as \<open>load_csv\<close> reads it: the flag is text. \<open>csv_hq\<close> is the active
  headquarters with bracket \<open>'21'\<close>, \<open>csv_secondary\<close> a closed establishment that is not
  the headquarters.
\<close>

definition csv_hq :: sirene_row where
  "csv_hq =
     cycle_A\<lparr>etatAdministratifEtablissement := Str (asc ''A''),
             trancheEffectifsEtablissement := Str (asc ''21''),
             etablissementSiege := PyText (Str (asc ''True''))\<rparr>"

definition csv_secondary :: sirene_row where
  "csv_secondary = cycle_B\<lparr>etablissementSiege := PyText (Str (asc ''False''))\<rparr>"

text \<open>Active rows with the postal codes \<open>'75001'\<close>, \<open>'7'\<close> and \<open>''\<close>.\<close>

definition paris_row :: sirene_row where
  "paris_row = active_12\<lparr>codePostalEtablissement := Str (asc ''75001'')\<rparr>"

definition short_row :: sirene_row where
  "short_row = active_12\<lparr>codePostalEtablissement := Str (asc ''7'')\<rparr>"

definition empty_cp_row :: sirene_row where
  "empty_cp_row = active_12\<lparr>codePostalEtablissement := Str []\<rparr>"

section \<open>Library functions\<close>

text \<open>
  The program calls \<open>str.lower\<close>, \<open>str.upper\<close>, \<open>str.strip\<close>, \<open>str.split\<close>,
  \<open>unicodedata.normalize('NFKD', _)\<close>, the \<open>re\<close> classes \<open>\s\<close>, \<open>\w\<close>, \<open>\b\<close> and
  \<open>fuzz.token_sort_ratio\<close>. On ASCII their behaviour is fixed below. The tables of the
  Unicode database for the code points from 128 on, and the similarity ratio of the
  \<open>fuzzywuzzy\<close> package, are not part of the repository: they are parameters, and every
  theorem holds for all of them.
  \<^item> \<open>lower_tbl c\<close>, \<open>upper_tbl c\<close>: the lower and upper case mapping of a code point (it
    can be several code points);
  \<^item> \<open>nfkd_tbl c\<close>: the compatibility decomposition of a code point; the reordering of
    combining marks that \<open>normalize\<close> adds moves no ASCII character, and the marks are
    dropped by the ASCII encoding that follows;
  \<^item> \<open>space_tbl c\<close>: whether \<open>str.isspace\<close> holds;
  \<^item> \<open>token_sort_ratio a b\<close>: \<open>fuzz.token_sort_ratio(a, b)\<close>, an integer.
\<close>

record pylib =
  lower_tbl :: "nat \<Rightarrow> pystr"
  upper_tbl :: "nat \<Rightarrow> pystr"
  nfkd_tbl :: "nat \<Rightarrow> pystr"
  space_tbl :: "nat \<Rightarrow> bool"
  token_sort_ratio :: "pystr \<Rightarrow> pystr \<Rightarrow> int"

text \<open>
  White space, for \<open>strip\<close>, \<open>split\<close> and \<open>\s\<close>: in ASCII the characters 9 to 13, 28 to
  31 and the blank 32.
\<close>

definition is_space :: "pylib \<Rightarrow> nat \<Rightarrow> bool" where
  "is_space L c =
     (if c < 128 then (9 \<le> c \<and> c \<le> 13) \<or> (28 \<le> c \<and> c \<le> 32) else space_tbl L c)"

definition lower_cp :: "pylib \<Rightarrow> nat \<Rightarrow> pystr" where
  "lower_cp L c =
     (if 65 \<le> c \<and> c \<le> 90 then [c + 32] else if c < 128 then [c] else lower_tbl L c)"

definition py_lower :: "pylib \<Rightarrow> pystr \<Rightarrow> pystr" where
  "py_lower L s = concat (map (lower_cp L) s)"

definition upper_cp :: "pylib \<Rightarrow> nat \<Rightarrow> pystr" where
  "upper_cp L c =
     (if 97 \<le> c \<and> c \<le> 122 then [c - 32] else if c < 128 then [c] else upper_tbl L c)"

definition py_upper :: "pylib \<Rightarrow> pystr \<Rightarrow> pystr" where
  "py_upper L s = concat (map (upper_cp L) s)"

definition nfkd_cp :: "pylib \<Rightarrow> nat \<Rightarrow> pystr" where
  "nfkd_cp L c = (if c < 128 then [c] else nfkd_tbl L c)"

definition py_nfkd :: "pylib \<Rightarrow> pystr \<Rightarrow> pystr" where
  "py_nfkd L s = concat (map (nfkd_cp L) s)"

text \<open>\<open>s.encode('ascii', 'ignore').decode('ascii')\<close>: the ASCII characters of \<open>s\<close>.\<close>

definition encode_ascii_ignore :: "pystr \<Rightarrow> pystr" where
  "encode_ascii_ignore s = filter (\<lambda>c. c < 128) s"

definition py_strip :: "pylib \<Rightarrow> pystr \<Rightarrow> pystr" where
  "py_strip L s = rev (dropWhile (is_space L) (rev (dropWhile (is_space L) s)))"

text \<open>\<open>s.split()\<close>: the maximal runs of characters that are not white space.\<close>

function py_split :: "pylib \<Rightarrow> pystr \<Rightarrow> pystr list" where
  "py_split L s =
     (case dropWhile (is_space L) s of
        [] \<Rightarrow> []
      | c # cs \<Rightarrow>
          (c # takeWhile (\<lambda>x. \<not> is_space L x) cs)
            # py_split L (dropWhile (\<lambda>x. \<not> is_space L x) cs))"
  by pat_completeness auto
termination
proof (relation "measure (\<lambda>(L, s). length s)")
  fix L :: pylib and s :: pystr and c cs
  assume "dropWhile (is_space L) s = c # cs"
  then have "length (c # cs) \<le> length s"
    by (metis length_dropWhile_le)
  moreover have "length (dropWhile (\<lambda>x. \<not> is_space L x) cs) \<le> length cs"
    by (rule length_dropWhile_le)
  ultimately show "((L, dropWhile (\<lambda>x. \<not> is_space L x) cs), (L, s)) \<in> measure (\<lambda>(L, s). length s)"
    by simp
qed simp

declare py_split.simps [simp del]

text \<open>\<open>a in b\<close> for strings: \<open>a\<close> occurs in \<open>b\<close> as a contiguous run.\<close>

fun py_in :: "pystr \<Rightarrow> pystr \<Rightarrow> bool" where
  "py_in a [] = (a = [])"
| "py_in a (c # cs) = (take (length a) (c # cs) = a \<or> py_in a cs)"

text \<open>\<open>s.replace(" ", "")\<close>.\<close>

definition remove_blanks :: "pystr \<Rightarrow> pystr" where
  "remove_blanks s = filter (\<lambda>c. c \<noteq> 32) s"

subsection \<open>Regular expression substitutions\<close>

text \<open>
  \<open>normalize_name\<close> applies its substitutions to ASCII text only, where \<open>\w\<close> is a
  letter, a digit or the underscore.
\<close>

definition re_word :: "nat \<Rightarrow> bool" where
  "re_word c \<longleftrightarrow> (48 \<le> c \<and> c \<le> 57) \<or> (65 \<le> c \<and> c \<le> 90) \<or> c = 95 \<or> (97 \<le> c \<and> c \<le> 122)"

text \<open>
  \<open>re.sub(r'\([^)]*\)', ' ', s)\<close>: scanning from the left, an opening parenthesis (40)
  with a closing one (41) somewhere after it is replaced, together with everything up
  to the first closing one, by a blank; the scan goes on after it.
\<close>

function sub_parens :: "pystr \<Rightarrow> pystr" where
  "sub_parens [] = []"
| "sub_parens (c # cs) =
     (if c = 40 \<and> 41 \<in> set cs
      then 32 # sub_parens (tl (dropWhile (\<lambda>x. x \<noteq> 41) cs))
      else c # sub_parens cs)"
  by pat_completeness auto
termination
proof (relation "measure length")
  fix c :: nat and cs :: pystr
  have "length (tl (dropWhile (\<lambda>x. x \<noteq> 41) cs)) \<le> length (dropWhile (\<lambda>x. x \<noteq> 41) cs)"
    by simp
  also have "\<dots> \<le> length cs" by (rule length_dropWhile_le)
  finally show "(tl (dropWhile (\<lambda>x. x \<noteq> 41) cs), c # cs) \<in> measure length"
    by simp
qed simp_all

text \<open>
  \<open>re.sub(r'\b(w1|w2|...)\b', ' ', s)\<close>: a match starts and ends at a word boundary and
  consists of word characters, so it is a maximal run of word characters; every such
  run that is one of the words is replaced by a blank.
\<close>

function sub_words :: "pystr list \<Rightarrow> pystr \<Rightarrow> pystr" where
  "sub_words ws [] = []"
| "sub_words ws (c # cs) =
     (if re_word c
      then (let w = c # takeWhile re_word cs
            in (if w \<in> set ws then [32] else w) @ sub_words ws (dropWhile re_word cs))
      else c # sub_words ws cs)"
  by pat_completeness auto
termination
  by (relation "measure (\<lambda>(ws, s). length s)")
    (auto simp: length_dropWhile_le less_Suc_eq_le)

text \<open>\<open>re.sub(r"[^\w\s-]", " ", s)\<close>; 45 is the hyphen.\<close>

definition sub_punct :: "pylib \<Rightarrow> pystr \<Rightarrow> pystr" where
  "sub_punct L s = map (\<lambda>c. if re_word c \<or> is_space L c \<or> c = 45 then c else 32) s"

text \<open>\<open>re.sub(r'\s+', ' ', s)\<close>: every maximal run of white space becomes one blank.\<close>

function sub_spaces :: "pylib \<Rightarrow> pystr \<Rightarrow> pystr" where
  "sub_spaces L [] = []"
| "sub_spaces L (c # cs) =
     (if is_space L c then 32 # sub_spaces L (dropWhile (is_space L) cs)
      else c # sub_spaces L cs)"
  by pat_completeness auto
termination
  by (relation "measure (\<lambda>(L, s). length s)")
    (auto simp: length_dropWhile_le less_Suc_eq_le)

declare sub_parens.simps [simp del]
declare sub_words.simps [simp del]
declare sub_spaces.simps [simp del]

section \<open>Text normalisation\<close>

definition legal_forms :: "pystr list" where
  "legal_forms =
     [asc ''sarl'', asc ''sa'', asc ''sas'', asc ''sasu'', asc ''eurl'', asc ''ei'',
      asc ''sci'', asc ''scop'', asc ''snc'', asc ''sc'', asc ''sasf'']"

text \<open>
  \<open>normalize_name\<close>, on a cell (a string or \<open>nan\<close>): the empty string for a missing or
  blank value; otherwise lower case, decomposition, ASCII encoding, and the five
  substitutions in the order of the source.
\<close>

definition normalize_name :: "pylib \<Rightarrow> cell \<Rightarrow> pystr" where
  "normalize_name L name =
     (if isna name \<or> py_strip L (py_str name) = [] then []
      else
        let s = py_nfkd L (py_lower L (py_str name));
            s = encode_ascii_ignore s;
            s = sub_parens s;
            s = sub_words [asc ''cedex''] s;
            s = sub_punct L s;
            s = sub_words legal_forms s;
            s = py_strip L (sub_spaces L s)
        in s)"

section \<open>Scoring and matching\<close>

definition extract_acronym :: "pylib \<Rightarrow> cell \<Rightarrow> pystr" where
  "extract_acronym L name =
     (let safe_name = py_str name
      in map hd (filter (\<lambda>word. word \<noteq> []) (py_split L safe_name)))"

definition match_score :: "pylib \<Rightarrow> cell \<Rightarrow> cell \<Rightarrow> cell \<Rightarrow> cell \<Rightarrow> int" where
  "match_score L client_norm0 siren_norm0 client_city0 siren_city0 =
     (let client_norm = py_str client_norm0;
          siren_norm = py_str siren_norm0;
          client_city = py_lower L (py_strip L (py_str client_city0));
          siren_city = py_lower L (py_strip L (py_str siren_city0));
          ratio_token = token_sort_ratio L client_norm siren_norm;
          substring_bonus =
            (if py_in client_norm siren_norm \<or> py_in siren_norm client_norm then 20 else 0);
          client_acro = extract_acronym L (Str client_norm);
          siren_acro = extract_acronym L (Str siren_norm);
          acronym_bonus =
            (if client_acro \<noteq> [] \<and> siren_acro \<noteq> [] then
               (if client_acro = siren_acro then 20
                else if py_in client_acro (remove_blanks siren_norm) then 15
                else 0)
             else 0);
          city_bonus =
            (if client_city \<noteq> [] \<and> siren_city \<noteq> [] \<and> client_city = siren_city
             then 10 else - 10)
      in ratio_token + substring_bonus + acronym_bonus + city_bonus)"

text \<open>
  The body of the loop of \<open>match_single_company\<close>, in two steps: the score of a
  row, and the update of the state \<open>(best_match, best_score)\<close>, which is replaced
  when the score of the row is strictly greater.
\<close>

definition candidate_score :: "pylib \<Rightarrow> pystr \<Rightarrow> pystr \<Rightarrow> sirene_row \<Rightarrow> int" where
  "candidate_score L normalized_client_name normalized_client_city row =
     (let siren_name = nom_normalise row;
          siren_city = libelleCommuneEtablissement row;
          normalized_siren_city = normalize_name L siren_city
      in match_score L (Str normalized_client_name) siren_name
           (Str normalized_client_city) (Str normalized_siren_city))"

definition scan_row ::
  "pylib \<Rightarrow> pystr \<Rightarrow> pystr \<Rightarrow> sirene_row option \<times> int \<Rightarrow> sirene_row
     \<Rightarrow> sirene_row option \<times> int" where
  "scan_row L normalized_client_name normalized_client_city best row =
     (let score = candidate_score L normalized_client_name normalized_client_city row
      in if score > snd best then (Some row, score) else best)"

text \<open>
  \<open>match_single_company\<close>: the scan starts from \<open>(None, -1.0)\<close>; the pair is returned
  when the best score reaches the threshold, \<open>None\<close> otherwise. Scores are integers
  (the ratio and the bonuses are), the threshold is a real number.
\<close>

definition match_single_company ::
  "pylib \<Rightarrow> cell \<Rightarrow> cell \<Rightarrow> sirene_row list \<Rightarrow> real
     \<Rightarrow> (sirene_row option \<times> int) option" where
  "match_single_company L client_name client_city sirene_subset threshold =
     (let normalized_client_name = normalize_name L client_name;
          normalized_client_city = normalize_name L client_city;
          best = foldl (scan_row L normalized_client_name normalized_client_city)
                   (None, - 1) sirene_subset
      in if real_of_int (snd best) \<ge> threshold then Some best else None)"

section \<open>A library instance for the examples\<close>



section \<open>Notions used in the proofs about normalisation\<close>

text \<open>The maximal runs of word characters of a string, from left to right.\<close>

function runs :: "pystr \<Rightarrow> pystr list" where
  "runs [] = []"
| "runs (c # cs) =
     (if re_word c then (c # takeWhile re_word cs) # runs (dropWhile re_word cs)
      else runs cs)"
  by pat_completeness auto
termination
  by (relation "measure length") (auto simp: length_dropWhile_le less_Suc_eq_le)

declare runs.simps [simp del]

text \<open>
  A string in which every white space character is a blank that no white space
  follows: the strings that \<open>sub_spaces\<close> leaves as they are.
\<close>

fun spaced :: "pylib \<Rightarrow> pystr \<Rightarrow> bool" where
  "spaced L [] = True"
| "spaced L (c # cs) =
     ((\<not> is_space L c \<or> (c = 32 \<and> (cs = [] \<or> \<not> is_space L (hd cs)))) \<and> spaced L cs)"

text \<open>The characters of a normalised name: word characters, the hyphen and the blank.\<close>

definition norm_char :: "nat \<Rightarrow> bool" where
  "norm_char c \<longleftrightarrow> re_word c \<or> c = 45 \<or> c = 32"

definition ascii_upper :: "nat \<Rightarrow> bool" where
  "ascii_upper c \<longleftrightarrow> 65 \<le> c \<and> c \<le> 90"

section \<open>CRM records and the orchestrator\<close>

text \<open>
  A CRM record is a Python \<open>dict\<close> from field names to values. The values that
  \<open>load_orion\<close> delivers (\<open>dtype=str\<close>) are cells, a string or \<open>nan\<close>; the program itself
  stores numbers under \<open>score_match\<close>. Numbers are integers: the ratio and the bonuses
  are, and the default \<open>0.0\<close> is the number zero.
\<close>

datatype pyval = Cell cell | Num int

type_synonym pydict = "pystr \<rightharpoonup> pyval"

text \<open>
  The records are objects: \<open>update_CRM\<close> copies each record of the caller and changes
  the copies in place. The store is the list of all \<open>dict\<close> objects, an object's
  address is its position, and a new object is appended. \<open>crm_db\<close> and \<open>crm_updated\<close>
  are lists of addresses.
\<close>

type_synonym heap = "pydict list"

datatype error = AttributeError | TypeError | RecursionError

text \<open>\<open>d.get(k, dflt)\<close> and \<open>d.setdefault(k, dflt)\<close>.\<close>

definition dict_get :: "pydict \<Rightarrow> pystr \<Rightarrow> pyval \<Rightarrow> pyval" where
  "dict_get d k dflt = (case d k of None \<Rightarrow> dflt | Some v \<Rightarrow> v)"

definition setdefault :: "pydict \<Rightarrow> pystr \<Rightarrow> pyval \<Rightarrow> pydict" where
  "setdefault d k dflt = (case d k of None \<Rightarrow> d(k \<mapsto> dflt) | Some v \<Rightarrow> d)"

text \<open>\<open>str(v)\<close> of a value; an integer prints in decimal.\<close>

fun nat_digits :: "nat \<Rightarrow> pystr" where
  "nat_digits n = (if n < 10 then [48 + n] else nat_digits (n div 10) @ [48 + n mod 10])"

declare nat_digits.simps [simp del]

definition int_str :: "int \<Rightarrow> pystr" where
  "int_str i = (if i < 0 then 45 # nat_digits (nat (- i)) else nat_digits (nat i))"

fun val_str :: "pyval \<Rightarrow> pystr" where
  "val_str (Cell c) = py_str c"
| "val_str (Num i) = int_str i"

text \<open>
  The field names. The name of the company field is \<open>Soci\<close>, the letter e with acute
  accent (code point 233), \<open>t\<close>, and the same letter again.
\<close>

definition k_SIRET :: pystr where "k_SIRET = asc ''SIRET''"
definition k_SIREN :: pystr where "k_SIREN = asc ''SIREN''"
definition k_effectif :: pystr where "k_effectif = asc ''effectif''"
definition k_nom_match_sirene :: pystr where "k_nom_match_sirene = asc ''nom_match_sirene''"
definition k_score_match :: pystr where "k_score_match = asc ''score_match''"
definition k_Pays :: pystr where "k_Pays = asc ''Pays''"
definition k_CP :: pystr where "k_CP = asc ''CP''"
definition k_Societe :: pystr where "k_Societe = asc ''Soci'' @ [233] @ asc ''t'' @ [233]"
definition k_Ville :: pystr where "k_Ville = asc ''Ville''"

text \<open>The five enrichment fields with their defaults.\<close>

definition enrichment_defaults :: "(pystr \<times> pyval) list" where
  "enrichment_defaults =
     [(k_SIRET, Cell (Str [])), (k_SIREN, Cell (Str [])), (k_effectif, Cell (Str [])),
      (k_nom_match_sirene, Cell (Str [])), (k_score_match, Num 0)]"

text \<open>The body of the first loop: \<open>new_rec = rec.copy()\<close> and the five \<open>setdefault\<close>.\<close>

definition new_rec :: "pydict \<Rightarrow> pydict" where
  "new_rec rec =
     (let r = rec;
          r = setdefault r k_SIRET (Cell (Str []));
          r = setdefault r k_SIREN (Cell (Str []));
          r = setdefault r k_effectif (Cell (Str []));
          r = setdefault r k_nom_match_sirene (Cell (Str []));
          r = setdefault r k_score_match (Num 0)
      in r)"

text \<open>
  The first loop: for each record of \<open>crm_db\<close> a new object is made and its address
  appended to \<open>crm_updated\<close>.
\<close>

fun copy_records :: "heap \<Rightarrow> nat list \<Rightarrow> heap \<times> nat list" where
  "copy_records h [] = (h, [])"
| "copy_records h (rec # crm_db) =
     (let (h', crm_updated) = copy_records (h @ [new_rec (h ! rec)]) crm_db
      in (h', length h # crm_updated))"

text \<open>\<open>crm_updated[client_index][k] = v\<close>.\<close>

definition set_field :: "heap \<Rightarrow> nat list \<Rightarrow> nat \<Rightarrow> pystr \<Rightarrow> pyval \<Rightarrow> heap" where
  "set_field h crm_updated client_index k v =
     h[crm_updated ! client_index := (h ! (crm_updated ! client_index))(k \<mapsto> v)]"

text \<open>
  \<open>remplir_ligne_orion\<close> writes the four fields and then the result of
  \<open>fill_effectif\<close>; a resolver that never returns ends in a \<open>RecursionError\<close>.
\<close>

definition remplir_ligne_orion ::
  "heap \<Rightarrow> nat list \<Rightarrow> nat \<Rightarrow> sirene_row \<Rightarrow> sirene_row list \<Rightarrow> cell \<Rightarrow> int
     \<Rightarrow> error + heap" where
  "remplir_ligne_orion h crm_updated client_index sirene_row sirene_head_subset
       matched_name match_score_value =
     (let h = set_field h crm_updated client_index k_SIRET (Cell (siret sirene_row));
          h = set_field h crm_updated client_index k_SIREN (Cell (siren sirene_row));
          h = set_field h crm_updated client_index k_nom_match_sirene (Cell matched_name);
          h = set_field h crm_updated client_index k_score_match (Num match_score_value)
      in case fill_effectif sirene_row sirene_head_subset of
           None \<Rightarrow> Inl RecursionError
         | Some effectif \<Rightarrow>
             Inr (set_field h crm_updated client_index k_effectif (Cell effectif)))"

text \<open>
  The body of the main loop for the client at index \<open>i\<close>. \<open>.strip()\<close> on a country
  that is not a string (\<open>nan\<close>, a number) raises \<open>AttributeError\<close>, and so does
  \<open>name.lower()\<close> in \<open>normalize_name\<close> on a name or city that is a number; a match
  whose row is \<open>None\<close> raises \<open>TypeError\<close> at \<open>match_row['nom_normalise']\<close>.
\<close>

definition update_client ::
  "pylib \<Rightarrow> (pystr \<rightharpoonup> sirene_row list) \<Rightarrow> sirene_row list \<Rightarrow> heap \<Rightarrow> nat list \<Rightarrow> nat
     \<Rightarrow> error + heap" where
  "update_client L sirene_by_dept sirene_head_subset h crm_updated i =
     (let client = h ! (crm_updated ! i) in
      case dict_get client k_Pays (Cell (Str [])) of
        Cell (Str pays) \<Rightarrow>
          if py_upper L (py_strip L pays) \<noteq> asc ''FRANCE'' then Inr h
          else
            (let dept = take 2 (val_str (dict_get client k_CP (Cell (Str []))))
             in case sirene_by_dept dept of
                  None \<Rightarrow> Inr h
                | Some bucket \<Rightarrow>
                    if bucket = [] then Inr h
                    else
                      (case (dict_get client k_Societe (Cell (Str [])),
                             dict_get client k_Ville (Cell (Str []))) of
                         (Cell client_name, Cell client_city) \<Rightarrow>
                           (case match_single_company L client_name client_city bucket 100 of
                              None \<Rightarrow> Inr h
                            | Some (None, match_score_value) \<Rightarrow> Inl TypeError
                            | Some (Some match_row, match_score_value) \<Rightarrow>
                                remplir_ligne_orion h crm_updated i match_row
                                  sirene_head_subset (nom_normalise match_row)
                                  match_score_value)
                       | _ \<Rightarrow> Inl AttributeError))
      | _ \<Rightarrow> Inl AttributeError)"

text \<open>The main loop, over the indices of \<open>crm_updated\<close>; an exception ends it.\<close>

fun update_clients ::
  "pylib \<Rightarrow> (pystr \<rightharpoonup> sirene_row list) \<Rightarrow> sirene_row list \<Rightarrow> heap \<Rightarrow> nat list \<Rightarrow> nat list
     \<Rightarrow> error + heap" where
  "update_clients L sirene_by_dept sirene_head_subset h crm_updated [] = Inr h"
| "update_clients L sirene_by_dept sirene_head_subset h crm_updated (i # rest) =
     (case update_client L sirene_by_dept sirene_head_subset h crm_updated i of
        Inl e \<Rightarrow> Inl e
      | Inr h' \<Rightarrow> update_clients L sirene_by_dept sirene_head_subset h' crm_updated rest)"

text \<open>
  \<open>update_CRM\<close> with \<open>output_path=None\<close>: nothing is written to disk (the writes, when
  a path is given, read the records and do not change them). The result is the store
  and the list \<open>crm_updated\<close>.
\<close>

definition update_CRM ::
  "pylib \<Rightarrow> sirene_row list \<Rightarrow> heap \<Rightarrow> nat list \<Rightarrow> error + heap \<times> nat list" where
  "update_CRM L sirene_df h crm_db =
     (let sirene_head_subset = filter (\<lambda>r. flag_eq_True (etablissementSiege r)) sirene_df;
          sirene_by_dept = create_sirene_by_dept sirene_df;
          (h1, crm_updated) = copy_records h crm_db
      in case update_clients L sirene_by_dept sirene_head_subset h1 crm_updated
                [0..<length crm_updated] of
           Inl e \<Rightarrow> Inl e
         | Inr h2 \<Rightarrow> Inr (h2, crm_updated))"


text \<open>
  The two ways the main loop skips a record: the country is a string that is not
  \<open>'FRANCE'\<close> after \<open>strip\<close> and \<open>upper\<close>, or the index has no bucket for the first two
  characters of \<open>str(CP)\<close>.
\<close>

definition country_filter_fails :: "pylib \<Rightarrow> pydict \<Rightarrow> bool" where
  "country_filter_fails L rec =
     (case dict_get rec k_Pays (Cell (Str [])) of
        Cell (Str pays) \<Rightarrow> py_upper L (py_strip L pays) \<noteq> asc ''FRANCE''
      | _ \<Rightarrow> False)"

definition crm_dept :: "pydict \<Rightarrow> pystr" where
  "crm_dept rec = take 2 (val_str (dict_get rec k_CP (Cell (Str []))))"

definition no_bucket :: "sirene_row list \<Rightarrow> pydict \<Rightarrow> bool" where
  "no_bucket sirene_df rec \<longleftrightarrow> create_sirene_by_dept sirene_df (crm_dept rec) = None"

text \<open>The names of the five enrichment fields.\<close>

definition enrichment_keys :: "pystr set" where
  "enrichment_keys = set (map fst enrichment_defaults)"

section \<open>Example CRM records and candidates\<close>






section \<open>The workforce resolver: results and termination\<close>

lemma asc_F_neq_A: "asc ''F'' \<noteq> asc ''A''"
  by (simp add: asc_def)

lemma find_headquarters_in:
  assumes "find_headquarters hs c = Some h"
  shows "h \<in> set hs"
proof -
  from assms obtain t where "filter (\<lambda>h. py_str (siren h) = py_str c) hs = h # t"
    by (auto simp: find_headquarters_def split: list.splits)
  then have "h \<in> set (filter (\<lambda>h. py_str (siren h) = py_str c) hs)" by simp
  then show ?thesis by simp
qed

lemma find_headquarters_again:
  assumes "find_headquarters hs c = Some h"
  shows "find_headquarters hs (siren h) = Some h"
proof -
  from assms obtain t where "filter (\<lambda>h. py_str (siren h) = py_str c) hs = h # t"
    by (auto simp: find_headquarters_def split: list.splits)
  then have "h \<in> set (filter (\<lambda>h. py_str (siren h) = py_str c) hs)" by simp
  then have "py_str (siren h) = py_str c" by simp
  with assms show ?thesis by (simp add: find_headquarters_def)
qed

text \<open>
  A closed row that is not flagged and that the index returns for its own \<open>siren\<close>: the
  resolver calls itself on the same arguments, so it never returns.
\<close>

lemma fill_effectif_self_loop:
  fixes h :: sirene_row
  assumes hq: "find_headquarters hs (siren h) = Some h"
    and closed: "etatAdministratifEtablissement h = Str (asc ''F'')"
    and flag: "\<not> flag_truthy (etablissementSiege h)"
  shows "fill_effectif h hs = None"
proof (rule ccontr)
  assume "fill_effectif h hs \<noteq> None"
  then obtain y where ret: "fill_effectif h hs = Some y" by blast
  have "\<not> (h = h \<and> hs = hs)"
  proof (rule fill_effectif.raw_induct [where P = "\<lambda>r hs' y. \<not> (r = h \<and> hs' = hs)", OF _ ret])
    fix f and r :: sirene_row and hs' :: "sirene_row list" and y :: cell
    assume IH: "\<And>r hs' y. f r hs' = Some y \<Longrightarrow> \<not> (r = h \<and> hs' = hs)"
      and eq: "(if etatAdministratifEtablissement r = Str (asc ''A'') then
        Some (if truthy (trancheEffectifsEtablissement r)
              then trancheEffectifsEtablissement r
              else Str (asc ''A PRECISER''))
      else if etatAdministratifEtablissement r = Str (asc ''F'') then
        (if flag_truthy (etablissementSiege r) then Some (Str (asc ''RADIEE''))
         else (case find_headquarters hs' (siren r) of
                 Some siege \<Rightarrow> f siege hs'
               | None \<Rightarrow> Some (Str (asc ''A PRECISER''))))
      else Some (Str (asc ''A PRECISER''))) = Some y"
    show "\<not> (r = h \<and> hs' = hs)"
    proof
      assume "r = h \<and> hs' = hs"
      with eq hq closed flag asc_F_neq_A have "f h hs = Some y" by simp
      from IH [OF this] show False by simp
    qed
  qed
  then show False by simp
qed

text \<open>
  Claim C1, as the specification states it: the resolver terminates on every input, and
  on the two-record cycle of closed rows it returns \<open>'A PRECISER'\<close>, the recursion being
  bounded in depth with self-reference detected. The code has neither a depth bound nor
  a visited set: on the cycle the call never returns.
\<close>

theorem fill_effectif_cycle_never_returns:
  "fill_effectif cycle_A [cycle_B, cycle_A] = None"
proof -
  have "find_headquarters [cycle_B, cycle_A] (siren cycle_B) = Some cycle_B"
    by (simp add: find_headquarters_def cycle_A_def cycle_B_def)
  then have "fill_effectif cycle_B [cycle_B, cycle_A] = None"
    by (rule fill_effectif_self_loop) (simp_all add: cycle_A_def cycle_B_def)
  moreover have "find_headquarters [cycle_B, cycle_A] (siren cycle_A) = Some cycle_B"
    by (simp add: find_headquarters_def cycle_A_def cycle_B_def)
  ultimately show ?thesis
    by (subst fill_effectif.simps) (simp add: cycle_A_def asc_F_neq_A)
qed

text \<open>
  Claim C1, amended: the resolver has no depth bound and detects no self-reference. Its
  result is a function of the record and of the one row that the index gives for the
  record's \<open>siren\<close>, with no second lookup: it returns after at most one recursive call,
  or never. It never returns exactly when the record is closed and its flag is false,
  and the row that the index gives for its \<open>siren\<close> is closed with a false flag as well
  (that row is then found again for its own \<open>siren\<close>, forever); the two-record cycle is
  such a case. In every other case it returns the value below. In particular it
  returns whenever every row of the index has a true flag, as in the index that
  \<open>update_CRM\<close> builds from the rows whose flag equals \<open>True\<close>.
\<close>

theorem fill_effectif_closed_form:
  "fill_effectif r hs =
     (if etatAdministratifEtablissement r = Str (asc ''A'') then
        Some (if truthy (trancheEffectifsEtablissement r)
              then trancheEffectifsEtablissement r
              else Str (asc ''A PRECISER''))
      else if etatAdministratifEtablissement r = Str (asc ''F'') then
        (if flag_truthy (etablissementSiege r) then Some (Str (asc ''RADIEE''))
         else (case find_headquarters hs (siren r) of
                 None \<Rightarrow> Some (Str (asc ''A PRECISER''))
               | Some h \<Rightarrow>
                   (if etatAdministratifEtablissement h = Str (asc ''A'') then
                      Some (if truthy (trancheEffectifsEtablissement h)
                            then trancheEffectifsEtablissement h
                            else Str (asc ''A PRECISER''))
                    else if etatAdministratifEtablissement h = Str (asc ''F'') then
                      (if flag_truthy (etablissementSiege h)
                       then Some (Str (asc ''RADIEE'')) else None)
                    else Some (Str (asc ''A PRECISER'')))))
      else Some (Str (asc ''A PRECISER'')))"
proof (cases "find_headquarters hs (siren r)")
  case None
  then show ?thesis by (subst fill_effectif.simps) simp
next
  case (Some h)
  have found: "fill_effectif h hs =
      (if etatAdministratifEtablissement h = Str (asc ''A'') then
         Some (if truthy (trancheEffectifsEtablissement h)
               then trancheEffectifsEtablissement h
               else Str (asc ''A PRECISER''))
       else if etatAdministratifEtablissement h = Str (asc ''F'') then
         (if flag_truthy (etablissementSiege h)
          then Some (Str (asc ''RADIEE'')) else None)
       else Some (Str (asc ''A PRECISER'')))"
  proof (cases "etatAdministratifEtablissement h = Str (asc ''F'')
      \<and> \<not> flag_truthy (etablissementSiege h)")
    case True
    from Some have "find_headquarters hs (siren h) = Some h"
      by (rule find_headquarters_again)
    then have "fill_effectif h hs = None"
      using True by (intro fill_effectif_self_loop) simp_all
    with True show ?thesis by (simp add: asc_F_neq_A)
  next
    case False
    then show ?thesis by (subst fill_effectif.simps) auto
  qed
  show ?thesis
    by (subst fill_effectif.simps) (simp add: Some found)
qed

theorem fill_effectif_closed_form_witness:
  "fill_effectif cycle_A [closed_hq, cycle_B, cycle_A] = Some (Str (asc ''RADIEE''))
   \<and> fill_effectif cycle_A [active_12, cycle_B] = Some (Str (asc ''12''))
   \<and> fill_effectif cycle_A [] = Some (Str (asc ''A PRECISER''))
   \<and> fill_effectif cycle_B [cycle_A] = None"
  using fill_effectif_closed_form [of cycle_A "[closed_hq, cycle_B, cycle_A]"]
    fill_effectif_closed_form [of cycle_A "[active_12, cycle_B]"]
    fill_effectif_closed_form [of cycle_A "[]"]
    fill_effectif_closed_form [of cycle_B "[cycle_A]"]
  by (simp add: active_12_def closed_hq_def cycle_A_def cycle_B_def
      find_headquarters_def asc_def)

text \<open>
  Claim C3: the resolver returns the record's own bracket if the status is \<open>'A'\<close> and
  the bracket is not empty, \<open>'A PRECISER'\<close> if the status is \<open>'A'\<close> and the bracket is
  empty, \<open>'RADIEE'\<close> if the status is \<open>'F'\<close> and the record is the headquarters, and
  for a closed record that is not the headquarters the result of the same procedure on
  the headquarters row of the index, or \<open>'A PRECISER'\<close> when there is none. The code
  misses the second case where it matters: the bracket of a row read by \<open>load_csv\<close> is
  \<open>nan\<close> when the file has none, \<open>nan\<close> is true in \<open>effectif if effectif else \<dots>\<close>, and
  the active record without a bracket gets \<open>nan\<close>, not \<open>'A PRECISER'\<close>.
\<close>

theorem fill_effectif_missing_bracket:
  "etatAdministratifEtablissement active_blank = Str (asc ''A'')
   \<and> trancheEffectifsEtablissement active_blank = NaN
   \<and> fill_effectif active_blank [] = Some NaN"
  by (subst fill_effectif.simps) (simp add: active_blank_def cycle_A_def)

text \<open>
  The flag read as text fails the fourth case in the same way: the string \<open>'False'\<close> is
  true in \<open>if est_siege\<close>, so the closed establishment that is not the headquarters gets
  \<open>'RADIEE'\<close> although the index holds its active headquarters with bracket \<open>'21'\<close>.
\<close>

lemma fill_effectif_text_flag:
  "find_headquarters [csv_hq] (siren csv_secondary) = Some csv_hq
   \<and> fill_effectif csv_secondary [csv_hq] = Some (Str (asc ''RADIEE''))"
proof -
  have "find_headquarters [csv_hq] (siren csv_secondary) = Some csv_hq"
    by (simp add: find_headquarters_def csv_hq_def csv_secondary_def cycle_A_def cycle_B_def)
  moreover have "fill_effectif csv_secondary [csv_hq] = Some (Str (asc ''RADIEE''))"
    by (subst fill_effectif.simps)
      (simp add: csv_secondary_def cycle_A_def cycle_B_def asc_def)
  ultimately show ?thesis by simp
qed

section \<open>The blocking index\<close>

lemma dept_astype_str [simp]: "dept (astype_str r) = dept r"
  by (simp add: dept_def astype_str_def)

lemma etat_astype_str [simp]:
  "etatAdministratifEtablissement (astype_str r) = etatAdministratifEtablissement r"
  by (simp add: astype_str_def)

lemma in_bucket_iff:
  "in_bucket (create_sirene_by_dept sirene_df) d r \<longleftrightarrow>
     r \<in> set (active_rows sirene_df) \<and> dept r = d"
  by (auto simp: in_bucket_def create_sirene_by_dept_def Let_def filter_empty_conv)

text \<open>
  Claim C2, as the specification states it: a record whose postal code has fewer than
  two characters is in no bucket. The code has no test on the length of the postal
  code: the active row with postal code \<open>'7'\<close> is the bucket of key \<open>'7'\<close>, and the one
  with the empty postal code is the bucket of key \<open>''\<close>.
\<close>

theorem short_postal_code_is_indexed:
  "create_sirene_by_dept [paris_row, short_row, empty_cp_row] (asc ''7'') = Some [short_row]
   \<and> create_sirene_by_dept [paris_row, short_row, empty_cp_row] [] = Some [empty_cp_row]"
  by (simp add: create_sirene_by_dept_def active_rows_def astype_str_def dept_def
      paris_row_def short_row_def empty_cp_row_def active_12_def cycle_A_def asc_def)

text \<open>
  Claim C2, amended: every active record is retrievable from exactly one bucket, the one
  keyed by the slice \<open>[:2]\<close> of its postal code, which is the whole postal code when
  that has fewer than two characters; so a record with postal code \<open>'75001'\<close> is
  retrievable exactly from bucket \<open>'75'\<close>, one with \<open>'7'\<close> exactly from bucket \<open>'7'\<close>
  and one with \<open>''\<close> exactly from bucket \<open>''\<close>.
\<close>

theorem active_record_bucket:
  assumes "r \<in> set sirene_df"
    and "etatAdministratifEtablissement r = Str (asc ''A'')"
  shows "(in_bucket (create_sirene_by_dept sirene_df) d (astype_str r) \<longleftrightarrow>
            d = take 2 (py_str (codePostalEtablissement r)))
         \<and> (length (py_str (codePostalEtablissement r)) < 2 \<longrightarrow>
            in_bucket (create_sirene_by_dept sirene_df)
              (py_str (codePostalEtablissement r)) (astype_str r))"
proof -
  from assms have "astype_str r \<in> set (active_rows sirene_df)"
    by (simp add: active_rows_def)
  then have "in_bucket (create_sirene_by_dept sirene_df) d' (astype_str r) \<longleftrightarrow>
      d' = take 2 (py_str (codePostalEtablissement r))" for d'
    by (auto simp: in_bucket_iff dept_def astype_str_def)
  then show ?thesis by simp
qed

theorem active_record_bucket_witness:
  "in_bucket (create_sirene_by_dept [paris_row, short_row, empty_cp_row]) (asc ''75'')
     (astype_str paris_row)
   \<and> \<not> in_bucket (create_sirene_by_dept [paris_row, short_row, empty_cp_row]) (asc ''7'')
     (astype_str paris_row)
   \<and> in_bucket (create_sirene_by_dept [paris_row, short_row, empty_cp_row]) (asc ''7'')
     (astype_str short_row)"
  using active_record_bucket [of paris_row "[paris_row, short_row, empty_cp_row]" "asc ''75''"]
    active_record_bucket [of paris_row "[paris_row, short_row, empty_cp_row]" "asc ''7''"]
    active_record_bucket [of short_row "[paris_row, short_row, empty_cp_row]" "asc ''7''"]
  by (simp add: paris_row_def short_row_def active_12_def cycle_A_def asc_def)

text \<open>
  Claim C9: every registry record in a bucket of the index has status \<open>'A'\<close>; each
  retained record is in exactly one bucket, the one keyed by the first two characters
  of its postal code; no closed record is reachable through a bucket lookup.
\<close>

theorem buckets_hold_active_records_once:
  "(\<forall>d rows r. create_sirene_by_dept sirene_df d = Some rows \<and> r \<in> set rows \<longrightarrow>
       etatAdministratifEtablissement r = Str (asc ''A'')
       \<and> etatAdministratifEtablissement r \<noteq> Str (asc ''F'')
       \<and> d = take 2 (py_str (codePostalEtablissement r)))
   \<and> (\<forall>r \<in> set (active_rows sirene_df).
         \<exists>!d. in_bucket (create_sirene_by_dept sirene_df) d r)"
proof (intro conjI allI impI ballI)
  fix d rows r
  assume "create_sirene_by_dept sirene_df d = Some rows \<and> r \<in> set rows"
  then have "in_bucket (create_sirene_by_dept sirene_df) d r"
    by (simp add: in_bucket_def)
  then have r: "r \<in> set (active_rows sirene_df)" and d: "dept r = d"
    by (simp_all add: in_bucket_iff)
  from r show "etatAdministratifEtablissement r = Str (asc ''A'')"
    by (auto simp: active_rows_def)
  then show "etatAdministratifEtablissement r \<noteq> Str (asc ''F'')"
    using asc_F_neq_A by simp
  from d show "d = take 2 (py_str (codePostalEtablissement r))"
    by (simp add: dept_def)
next
  fix r
  assume "r \<in> set (active_rows sirene_df)"
  then show "\<exists>!d. in_bucket (create_sirene_by_dept sirene_df) d r"
    by (auto simp: in_bucket_iff)
qed

theorem buckets_hold_active_records_once_witness:
  "create_sirene_by_dept [cycle_A, paris_row] (asc ''75'') = Some [paris_row]
   \<and> etatAdministratifEtablissement paris_row = Str (asc ''A'')
   \<and> (\<exists>!d. in_bucket (create_sirene_by_dept [cycle_A, paris_row]) d paris_row)
   \<and> create_sirene_by_dept [cycle_A, paris_row] (asc ''69'') = None"
proof -
  have idx: "create_sirene_by_dept [cycle_A, paris_row] (asc ''75'') = Some [paris_row]"
    and none: "create_sirene_by_dept [cycle_A, paris_row] (asc ''69'') = None"
    and act: "paris_row \<in> set (active_rows [cycle_A, paris_row])"
    by (simp_all add: create_sirene_by_dept_def active_rows_def astype_str_def dept_def
        paris_row_def active_12_def cycle_A_def asc_def)
  from buckets_hold_active_records_once [of "[cycle_A, paris_row]"]
  have members: "\<And>d rows r. create_sirene_by_dept [cycle_A, paris_row] d = Some rows \<Longrightarrow>
        r \<in> set rows \<Longrightarrow> etatAdministratifEtablissement r = Str (asc ''A'')"
    and once: "\<forall>r \<in> set (active_rows [cycle_A, paris_row]).
        \<exists>!d. in_bucket (create_sirene_by_dept [cycle_A, paris_row]) d r"
    by blast+
  from members [OF idx] have "etatAdministratifEtablissement paris_row = Str (asc ''A'')"
    by simp
  moreover from once act
  have "\<exists>!d. in_bucket (create_sirene_by_dept [cycle_A, paris_row]) d paris_row"
    by blast
  ultimately show ?thesis using idx none by simp
qed

section \<open>Text normalisation: the form of a normalised name\<close>

subsection \<open>White space, word characters and list facts\<close>

lemma is_space_not_word: "is_space L c \<Longrightarrow> \<not> re_word c"
  by (auto simp: is_space_def re_word_def split: if_splits)

lemma word_not_space: "re_word c \<Longrightarrow> \<not> is_space L c"
  by (auto simp: is_space_def re_word_def split: if_splits)

lemma is_space_32 [simp]: "is_space L 32"
  by (simp add: is_space_def)

lemma not_word_32 [simp]: "\<not> re_word 32"
  by (simp add: re_word_def)

lemma takeWhile_nil_hd: "t = [] \<or> \<not> P (hd t) \<Longrightarrow> takeWhile P t = []"
  by (cases t) auto

lemma dropWhile_id_hd: "t = [] \<or> \<not> P (hd t) \<Longrightarrow> dropWhile P t = t"
  by (cases t) auto

lemma dropWhile_hd: "dropWhile P t = [] \<or> \<not> P (hd (dropWhile P t))"
  by (induction t) auto

lemma takeWhile_app_tail: "\<forall>c \<in> set suf. \<not> P c \<Longrightarrow> takeWhile P (cs @ suf) = takeWhile P cs"
  by (induction cs) (auto simp: takeWhile_nil_hd intro: takeWhile_nil_hd)

lemma dropWhile_app_tail:
  "\<forall>c \<in> set suf. \<not> P c \<Longrightarrow> dropWhile P (cs @ suf) = dropWhile P cs @ suf"
  by (induction cs) (auto intro: dropWhile_id_hd)

subsection \<open>Runs of word characters\<close>

lemma runs_Nil [simp]: "runs [] = []"
  by (simp add: runs.simps)

lemma runs_nonword [simp]: "\<not> re_word c \<Longrightarrow> runs (c # s) = runs s"
  by (simp add: runs.simps)

lemma runs_word_app:
  assumes "w \<noteq> []" and "\<forall>c \<in> set w. re_word c" and "t = [] \<or> \<not> re_word (hd t)"
  shows "runs (w @ t) = w # runs t"
proof -
  from assms(1) obtain c w' where w: "w = c # w'" by (cases w) auto
  with assms(2) have c: "re_word c" and w': "\<And>x. x \<in> set w' \<Longrightarrow> re_word x" by auto
  have "takeWhile re_word (w' @ t) = w'"
    using w' assms(3) by (simp add: takeWhile_append2 takeWhile_nil_hd)
  moreover have "dropWhile re_word (w' @ t) = t"
    using w' assms(3) by (simp add: dropWhile_append2 dropWhile_id_hd)
  ultimately show ?thesis using c w by (simp add: runs.simps)
qed

lemma runs_word_cons:
  assumes "re_word c"
  shows "runs (c # cs) = (c # takeWhile re_word cs) # runs (dropWhile re_word cs)"
  using assms by (simp add: runs.simps)

lemma runs_dropWhile:
  assumes "\<And>c. P c \<Longrightarrow> \<not> re_word c"
  shows "runs (dropWhile P s) = runs s"
  using assms by (induction s) auto

lemma runs_all_nonword: "\<forall>c \<in> set s. \<not> re_word c \<Longrightarrow> runs s = []"
  by (induction s) auto

lemma runs_app_tail:
  assumes "\<forall>c \<in> set suf. \<not> re_word c"
  shows "runs (t @ suf) = runs t"
proof (induction t rule: runs.induct)
  case 1
  from assms show ?case by (simp add: runs_all_nonword)
next
  case (2 c cs)
  show ?case
  proof (cases "re_word c")
    case True
    with 2 assms show ?thesis
      by (simp add: runs_word_cons takeWhile_app_tail dropWhile_app_tail)
  next
    case False
    with 2 show ?thesis by simp
  qed
qed

lemma runs_all_space: "\<forall>c \<in> set s. is_space L c \<Longrightarrow> runs (s @ t) = runs t"
  by (induction s) (auto dest: is_space_not_word)

subsection \<open>What each substitution does to the runs\<close>

lemma sub_words_Nil [simp]: "sub_words ws [] = []"
  by (simp add: sub_words.simps)

lemma sub_words_nonword [simp]: "\<not> re_word c \<Longrightarrow> sub_words ws (c # s) = c # sub_words ws s"
  by (simp add: sub_words.simps)

lemma sub_words_word:
  "re_word c \<Longrightarrow> sub_words ws (c # cs) =
     (if c # takeWhile re_word cs \<in> set ws then [32] else c # takeWhile re_word cs)
       @ sub_words ws (dropWhile re_word cs)"
  by (simp add: sub_words.simps Let_def)

lemma hd_sub_words:
  "s = [] \<or> \<not> re_word (hd s) \<Longrightarrow> sub_words ws s = [] \<or> \<not> re_word (hd (sub_words ws s))"
  by (cases s) auto

lemma runs_sub_words: "runs (sub_words ws s) = filter (\<lambda>w. w \<notin> set ws) (runs s)"
proof (induction ws s rule: sub_words.induct)
  case (1 ws)
  then show ?case by simp
next
  case (2 ws c cs)
  show ?case
  proof (cases "re_word c")
    case False
    with 2 show ?thesis by simp
  next
    case True
    let ?w = "c # takeWhile re_word cs" and ?rest = "dropWhile re_word cs"
    have IH: "runs (sub_words ws ?rest) = filter (\<lambda>w. w \<notin> set ws) (runs ?rest)"
      using 2(1) [OF True refl] .
    have hd: "sub_words ws ?rest = [] \<or> \<not> re_word (hd (sub_words ws ?rest))"
      by (rule hd_sub_words) (rule dropWhile_hd)
    have w: "\<forall>x \<in> set ?w. re_word x"
      using True by (auto dest: set_takeWhileD)
    show ?thesis
    proof (cases "?w \<in> set ws")
      case True
      with \<open>re_word c\<close> IH show ?thesis
        by (simp add: sub_words_word runs_word_cons)
    next
      case False
      have "runs (?w @ sub_words ws ?rest) = ?w # runs (sub_words ws ?rest)"
        using w hd by (intro runs_word_app) simp_all
      with False \<open>re_word c\<close> IH show ?thesis
        by (simp add: sub_words_word runs_word_cons)
    qed
  qed
qed

lemma sub_words_id: "set (runs s) \<inter> set ws = {} \<Longrightarrow> sub_words ws s = s"
proof (induction ws s rule: sub_words.induct)
  case (1 ws)
  then show ?case by simp
next
  case (2 ws c cs)
  show ?case
  proof (cases "re_word c")
    case False
    with 2 show ?thesis by simp
  next
    case True
    with 2(3) have w: "c # takeWhile re_word cs \<notin> set ws"
      and rest: "set (runs (dropWhile re_word cs)) \<inter> set ws = {}"
      by (auto simp: runs_word_cons)
    from 2(1) [OF True refl rest] w True show ?thesis
      by (simp add: sub_words_word)
  qed
qed

lemma set_sub_words: "set (sub_words ws s) \<subseteq> insert 32 (set s)"
proof (induction ws s rule: sub_words.induct)
  case (1 ws)
  then show ?case by simp
next
  case (2 ws c cs)
  show ?case
  proof (cases "re_word c")
    case False
    with 2 show ?thesis by auto
  next
    case True
    from 2(1) [OF True refl]
    have "set (sub_words ws (dropWhile re_word cs)) \<subseteq> insert 32 (set cs)"
      by (auto dest: set_dropWhileD)
    with True show ?thesis
      by (auto simp: sub_words_word dest: set_takeWhileD)
  qed
qed

lemma runs_sub_punct: "runs (sub_punct L s) = runs s"
proof (induction s rule: runs.induct)
  case 1
  then show ?case by (simp add: sub_punct_def)
next
  case (2 c cs)
  let ?f = "\<lambda>c. if re_word c \<or> is_space L c \<or> c = 45 then c else 32"
  have wf: "re_word (?f x) = re_word x" for x by simp
  show ?case
  proof (cases "re_word c")
    case False
    with 2 show ?thesis by (simp add: sub_punct_def)
  next
    case True
    have "takeWhile re_word (map ?f cs) = map ?f (takeWhile (re_word \<circ> ?f) cs)"
      by (rule takeWhile_map)
    also have "re_word \<circ> ?f = re_word" by (rule ext) simp
    also have "map ?f (takeWhile re_word cs) = takeWhile re_word cs"
      by (rule map_idI) (auto dest: set_takeWhileD)
    finally have tw: "takeWhile re_word (map ?f cs) = takeWhile re_word cs" .
    have "dropWhile re_word (map ?f cs) = map ?f (dropWhile (re_word \<circ> ?f) cs)"
      by (rule dropWhile_map)
    also have "re_word \<circ> ?f = re_word" by (rule ext) simp
    finally have dw: "dropWhile re_word (map ?f cs) = map ?f (dropWhile re_word cs)" .
    from 2(1) [OF True] have "runs (map ?f (dropWhile re_word cs)) = runs (dropWhile re_word cs)"
      by (simp add: sub_punct_def)
    with True tw dw show ?thesis
      by (simp add: sub_punct_def runs_word_cons)
  qed
qed

lemma sub_spaces_Nil [simp]: "sub_spaces L [] = []"
  by (simp add: sub_spaces.simps)

lemma sub_spaces_space:
  "is_space L c \<Longrightarrow> sub_spaces L (c # cs) = 32 # sub_spaces L (dropWhile (is_space L) cs)"
  by (simp add: sub_spaces.simps)

lemma sub_spaces_other [simp]:
  "\<not> is_space L c \<Longrightarrow> sub_spaces L (c # cs) = c # sub_spaces L cs"
  by (simp add: sub_spaces.simps)

lemma sub_spaces_word_prefix:
  "\<forall>c \<in> set w. re_word c \<Longrightarrow> sub_spaces L (w @ t) = w @ sub_spaces L t"
  by (induction w) (simp_all add: word_not_space)

lemma hd_sub_spaces_nonword:
  "t = [] \<or> \<not> re_word (hd t) \<Longrightarrow> sub_spaces L t = [] \<or> \<not> re_word (hd (sub_spaces L t))"
  by (cases t; cases "is_space L (hd t)") (auto simp: sub_spaces_space)

lemma runs_sub_spaces: "runs (sub_spaces L s) = runs s"
proof (induction s rule: length_induct)
  case (1 s)
  show ?case
  proof (cases s)
    case Nil
    then show ?thesis by simp
  next
    case (Cons c cs)
    show ?thesis
    proof (cases "re_word c")
      case True
      let ?w = "c # takeWhile re_word cs" and ?rest = "dropWhile re_word cs"
      have s: "s = ?w @ ?rest" using Cons by simp
      have w: "\<forall>x \<in> set ?w. re_word x" using True by (auto dest: set_takeWhileD)
      have "length ?rest < length s" using Cons
        by (simp add: length_dropWhile_le less_Suc_eq_le)
      with 1 have IH: "runs (sub_spaces L ?rest) = runs ?rest" by blast
      have "runs (?w @ sub_spaces L ?rest) = ?w # runs (sub_spaces L ?rest)"
        using w by (intro runs_word_app hd_sub_spaces_nonword dropWhile_hd) simp_all
      moreover have "sub_spaces L s = ?w @ sub_spaces L ?rest"
        by (subst s, rule sub_spaces_word_prefix [OF w])
      ultimately show ?thesis using IH True Cons by (simp add: runs_word_cons)
    next
      case False
      show ?thesis
      proof (cases "is_space L c")
        case True
        have "length (dropWhile (is_space L) cs) < length s" using Cons
          by (simp add: length_dropWhile_le less_Suc_eq_le)
        with 1 have "runs (sub_spaces L (dropWhile (is_space L) cs))
            = runs (dropWhile (is_space L) cs)" by blast
        also have "\<dots> = runs cs"
          by (rule runs_dropWhile) (rule is_space_not_word)
        finally show ?thesis using True False Cons by (simp add: sub_spaces_space)
      next
        case nsp: False
        from 1 Cons have "runs (sub_spaces L cs) = runs cs" by simp
        with nsp False Cons show ?thesis by simp
      qed
    qed
  qed
qed

lemma py_strip_decomp:
  "\<exists>pre suf. s = pre @ py_strip L s @ suf
     \<and> (\<forall>c \<in> set pre. is_space L c) \<and> (\<forall>c \<in> set suf. is_space L c)"
proof -
  let ?t = "dropWhile (is_space L) s"
  have "s = takeWhile (is_space L) s @ ?t" by simp
  moreover have "?t = rev (dropWhile (is_space L) (rev ?t)) @ rev (takeWhile (is_space L) (rev ?t))"
    by (metis rev_append rev_rev_ident takeWhile_dropWhile_id)
  ultimately have "s = takeWhile (is_space L) s @ py_strip L s @ rev (takeWhile (is_space L) (rev ?t))"
    by (simp add: py_strip_def)
  moreover have "\<forall>c \<in> set (takeWhile (is_space L) s). is_space L c"
    by (auto dest: set_takeWhileD)
  moreover have "\<forall>c \<in> set (rev (takeWhile (is_space L) (rev ?t))). is_space L c"
    by (auto dest: set_takeWhileD)
  ultimately show ?thesis by blast
qed

lemma runs_py_strip: "runs (py_strip L s) = runs s"
proof -
  from py_strip_decomp [of s L] obtain pre suf where s: "s = pre @ py_strip L s @ suf"
    and pre: "\<forall>c \<in> set pre. is_space L c" and suf: "\<forall>c \<in> set suf. is_space L c"
    by blast
  have "runs (pre @ py_strip L s @ suf) = runs (py_strip L s @ suf)"
    using pre by (rule runs_all_space)
  also have "\<dots> = runs (py_strip L s)"
    using suf by (intro runs_app_tail) (auto dest: is_space_not_word)
  finally show ?thesis using s by simp
qed

subsection \<open>The characters of a normalised name\<close>

lemma sub_parens_Nil [simp]: "sub_parens [] = []"
  by (simp add: sub_parens.simps)

lemma set_sub_parens: "set (sub_parens s) \<subseteq> insert 32 (set s)"
proof (induction s rule: sub_parens.induct)
  case 1
  then show ?case by simp
next
  case (2 c cs)
  show ?case
  proof (cases "c = 40 \<and> 41 \<in> set cs")
    case True
    with 2 have "set (sub_parens (tl (dropWhile (\<lambda>x. x \<noteq> 41) cs)))
        \<subseteq> insert 32 (set (tl (dropWhile (\<lambda>x. x \<noteq> 41) cs)))" by simp
    also have "set (tl (dropWhile (\<lambda>x. x \<noteq> 41) cs)) \<subseteq> set cs"
    proof -
      have "set (tl xs) \<subseteq> set xs" for xs :: pystr by (cases xs) auto
      then have "set (tl (dropWhile (\<lambda>x. x \<noteq> 41) cs)) \<subseteq> set (dropWhile (\<lambda>x. x \<noteq> 41) cs)" .
      then show ?thesis by (auto dest: set_dropWhileD)
    qed
    finally show ?thesis using True by (auto simp: sub_parens.simps)
  next
    case False
    with 2 show ?thesis by (auto simp: sub_parens.simps)
  qed
qed

lemma sub_parens_id: "40 \<notin> set s \<Longrightarrow> sub_parens s = s"
  by (induction s) (simp_all add: sub_parens.simps)

lemma set_sub_spaces: "set (sub_spaces L s) \<subseteq> insert 32 {c \<in> set s. \<not> is_space L c}"
proof (induction L s rule: sub_spaces.induct)
  case (1 L)
  then show ?case by simp
next
  case (2 L c cs)
  show ?case
  proof (cases "is_space L c")
    case True
    with 2 have "set (sub_spaces L (dropWhile (is_space L) cs))
        \<subseteq> insert 32 {x \<in> set (dropWhile (is_space L) cs). \<not> is_space L x}" by simp
    also have "\<dots> \<subseteq> insert 32 {x \<in> set cs. \<not> is_space L x}"
      by (auto dest: set_dropWhileD)
    finally show ?thesis using True by (auto simp: sub_spaces_space)
  next
    case False
    with 2 show ?thesis by auto
  qed
qed

lemma set_py_strip: "set (py_strip L s) \<subseteq> set s"
  by (auto simp: py_strip_def dest!: set_dropWhileD)

lemma set_sub_punct: "set (sub_punct L s) \<subseteq> insert 32 (set s)"
  by (auto simp: sub_punct_def)

lemma norm_char_pipeline:
  "\<forall>c \<in> set (py_strip L (sub_spaces L (sub_words ws (sub_punct L s)))). norm_char c"
proof
  fix c
  assume "c \<in> set (py_strip L (sub_spaces L (sub_words ws (sub_punct L s))))"
  then have "c \<in> set (sub_spaces L (sub_words ws (sub_punct L s)))"
    using set_py_strip by blast
  then have "c = 32 \<or> (c \<in> set (sub_words ws (sub_punct L s)) \<and> \<not> is_space L c)"
    using set_sub_spaces by blast
  then have "c = 32 \<or> (c \<in> set (sub_punct L s) \<and> \<not> is_space L c)"
    using set_sub_words by blast
  then show "norm_char c"
    by (auto simp: sub_punct_def norm_char_def split: if_splits)
qed

lemma norm_char_ascii: "norm_char c \<Longrightarrow> c < 128"
  by (auto simp: norm_char_def re_word_def)

lemma norm_char_space: "norm_char c \<Longrightarrow> is_space L c \<longleftrightarrow> c = 32"
  by (auto simp: norm_char_def is_space_def re_word_def)

lemma norm_char_no_paren: "\<forall>c \<in> set s. norm_char c \<Longrightarrow> 40 \<notin> set s"
  by (auto simp: norm_char_def re_word_def)

subsection \<open>Blanks\<close>

lemma spaced_app: "spaced L (a @ b) \<Longrightarrow> spaced L a \<and> spaced L b"
proof (induction a)
  case Nil
  then show ?case by simp
next
  case (Cons c a)
  then show ?case by (cases a) auto
qed

lemma hd_sub_spaces_nonspace:
  "t = [] \<or> \<not> is_space L (hd t) \<Longrightarrow> sub_spaces L t = [] \<or> \<not> is_space L (hd (sub_spaces L t))"
  by (cases t) auto

lemma spaced_sub_spaces: "spaced L (sub_spaces L s)"
proof (induction L s rule: sub_spaces.induct)
  case (1 L)
  then show ?case by simp
next
  case (2 L c cs)
  show ?case
  proof (cases "is_space L c")
    case True
    have "sub_spaces L (dropWhile (is_space L) cs) = []
        \<or> \<not> is_space L (hd (sub_spaces L (dropWhile (is_space L) cs)))"
      by (rule hd_sub_spaces_nonspace) (rule dropWhile_hd)
    with 2 True show ?thesis by (simp add: sub_spaces_space)
  next
    case False
    with 2 show ?thesis by simp
  qed
qed

lemma sub_spaces_id: "spaced L s \<Longrightarrow> sub_spaces L s = s"
proof (induction s)
  case Nil
  then show ?case by simp
next
  case (Cons c cs)
  show ?case
  proof (cases "is_space L c")
    case True
    with Cons.prems have c: "c = 32" and hd: "cs = [] \<or> \<not> is_space L (hd cs)" by auto
    from hd have "dropWhile (is_space L) cs = cs" by (rule dropWhile_id_hd)
    with Cons True c show ?thesis by (simp add: sub_spaces_space)
  next
    case False
    with Cons show ?thesis by simp
  qed
qed

lemma spaced_py_strip: "spaced L s \<Longrightarrow> spaced L (py_strip L s)"
proof -
  assume sp: "spaced L s"
  from py_strip_decomp [of s L] obtain pre suf where "s = pre @ py_strip L s @ suf" by blast
  with sp have "spaced L (pre @ py_strip L s @ suf)" by simp
  then show ?thesis by (blast dest: spaced_app)
qed

lemma py_strip_hd: "py_strip L s = [] \<or> \<not> is_space L (hd (py_strip L s))"
proof -
  let ?t = "dropWhile (is_space L) s"
  let ?u = "rev (dropWhile (is_space L) (rev ?t))"
  have t: "?t = ?u @ rev (takeWhile (is_space L) (rev ?t))"
    by (metis rev_append rev_rev_ident takeWhile_dropWhile_id)
  have "?u = [] \<or> \<not> is_space L (hd ?u)"
  proof (cases "?u = []")
    case False
    then have "hd ?u = hd ?t" using t by (metis hd_append2)
    moreover from False t have "?t \<noteq> []" by (metis Nil_is_append_conv)
    ultimately show ?thesis using dropWhile_hd [of "is_space L" s] by metis
  qed simp
  then show ?thesis by (simp add: py_strip_def)
qed

lemma py_strip_idem: "py_strip L (py_strip L s) = py_strip L s"
proof -
  let ?u = "py_strip L s"
  have "dropWhile (is_space L) ?u = ?u"
    using py_strip_hd by (rule dropWhile_id_hd)
  moreover have "dropWhile (is_space L) (rev ?u) = rev ?u"
    by (simp add: py_strip_def dropWhile_idem)
  ultimately show ?thesis by (simp add: py_strip_def [of L ?u])
qed

subsection \<open>The second pass\<close>

lemma py_lower_id:
  "\<forall>c \<in> set s. c < 128 \<and> \<not> ascii_upper c \<Longrightarrow> py_lower L s = s"
  by (induction s) (auto simp: py_lower_def lower_cp_def ascii_upper_def)

lemma py_nfkd_id: "\<forall>c \<in> set s. c < 128 \<Longrightarrow> py_nfkd L s = s"
  by (induction s) (auto simp: py_nfkd_def nfkd_cp_def)

lemma encode_ascii_ignore_id: "\<forall>c \<in> set s. c < 128 \<Longrightarrow> encode_ascii_ignore s = s"
  by (simp add: encode_ascii_ignore_def)

lemma sub_punct_id: "\<forall>c \<in> set s. norm_char c \<Longrightarrow> sub_punct L s = s"
  by (induction s) (auto simp: sub_punct_def norm_char_def)

text \<open>
  A string of word characters, hyphens and single blanks, with no capital letter, no
  blank at either end and no run that is \<open>cedex\<close> or a legal form, is left as it is.
\<close>

lemma normalize_name_fixpoint:
  assumes chars: "\<forall>c \<in> set s. norm_char c"
    and lower: "\<forall>c \<in> set s. \<not> ascii_upper c"
    and blanks: "spaced L s"
    and stripped: "py_strip L s = s"
    and words: "set (runs s) \<inter> set (asc ''cedex'' # legal_forms) = {}"
  shows "normalize_name L (Str s) = s"
proof (cases "s = []")
  case True
  then show ?thesis by (simp add: normalize_name_def py_strip_def)
next
  case False
  from chars have ascii: "\<forall>c \<in> set s. c < 128" by (auto dest: norm_char_ascii)
  with lower have s0: "encode_ascii_ignore (py_nfkd L (py_lower L s)) = s"
    by (simp add: py_lower_id py_nfkd_id encode_ascii_ignore_id)
  from chars have s1: "sub_parens s = s" by (intro sub_parens_id norm_char_no_paren)
  from words have s2: "sub_words [asc ''cedex''] s = s" by (intro sub_words_id) auto
  from chars have s3: "sub_punct L s = s" by (rule sub_punct_id)
  from words have s4: "sub_words legal_forms s = s" by (intro sub_words_id) auto
  from blanks have s5: "sub_spaces L s = s" by (rule sub_spaces_id)
  from False stripped s0 s1 s2 s3 s4 s5 show ?thesis
    by (simp add: normalize_name_def Let_def)
qed

text \<open>Every result of \<open>normalize_name\<close> has this form, but for the capital letters.\<close>

lemma normalize_name_form:
  "(\<forall>c \<in> set (normalize_name L name). norm_char c)
   \<and> spaced L (normalize_name L name)
   \<and> py_strip L (normalize_name L name) = normalize_name L name
   \<and> set (runs (normalize_name L name)) \<inter> set (asc ''cedex'' # legal_forms) = {}"
proof (cases "isna name \<or> py_strip L (py_str name) = []")
  case True
  then show ?thesis by (simp add: normalize_name_def py_strip_def)
next
  case False
  define z where "z = sub_parens (encode_ascii_ignore (py_nfkd L (py_lower L (py_str name))))"
  define y where "y = sub_punct L (sub_words [asc ''cedex''] z)"
  have n: "normalize_name L name = py_strip L (sub_spaces L (sub_words legal_forms y))"
    using False by (simp add: normalize_name_def Let_def y_def z_def)
  have "runs (normalize_name L name) = filter (\<lambda>w. w \<notin> set legal_forms) (runs y)"
    by (simp add: n runs_py_strip runs_sub_spaces runs_sub_words)
  moreover have "runs y = filter (\<lambda>w. w \<notin> set [asc ''cedex'']) (runs z)"
    by (simp add: y_def runs_sub_punct runs_sub_words)
  ultimately have "set (runs (normalize_name L name)) \<inter> set (asc ''cedex'' # legal_forms) = {}"
    by auto
  moreover have "\<forall>c \<in> set (normalize_name L name). norm_char c"
    unfolding n y_def by (rule norm_char_pipeline)
  moreover have "spaced L (normalize_name L name)"
    unfolding n by (intro spaced_py_strip spaced_sub_spaces)
  moreover have "py_strip L (normalize_name L name) = normalize_name L name"
    unfolding n by (rule py_strip_idem)
  ultimately show ?thesis by blast
qed

text \<open>
  So normalising twice is normalising once whenever the first result has no capital
  letter, which is the case for every ASCII input: \<open>lower\<close> removes the capitals of the
  input, and only the decomposition of a character beyond ASCII can bring one back.
\<close>

lemma normalize_name_idempotent_lower:
  assumes "\<forall>c \<in> set (normalize_name L name). \<not> ascii_upper c"
  shows "normalize_name L (Str (normalize_name L name)) = normalize_name L name"
  using assms normalize_name_form [of L name] by (intro normalize_name_fixpoint) simp_all

lemma lower_cp_ascii:
  "c < 128 \<Longrightarrow> \<forall>d \<in> set (lower_cp L c). d < 128 \<and> \<not> ascii_upper d"
  by (simp add: lower_cp_def ascii_upper_def)

lemma set_py_lower_ascii:
  assumes "\<forall>c \<in> set s. c < 128"
  shows "\<forall>c \<in> set (py_lower L s). c < 128 \<and> \<not> ascii_upper c"
  using assms lower_cp_ascii by (fastforce simp: py_lower_def)

lemma set_normalize_name:
  "set (normalize_name L name)
     \<subseteq> insert 32 (set (encode_ascii_ignore (py_nfkd L (py_lower L (py_str name)))))"
proof (cases "isna name \<or> py_strip L (py_str name) = []")
  case True
  then show ?thesis by (simp add: normalize_name_def)
next
  case False
  let ?s0 = "encode_ascii_ignore (py_nfkd L (py_lower L (py_str name)))"
  have "set (normalize_name L name)
      \<subseteq> set (sub_spaces L (sub_words legal_forms (sub_punct L
            (sub_words [asc ''cedex''] (sub_parens ?s0)))))"
    using False set_py_strip by (simp add: normalize_name_def Let_def)
  also have "\<dots> \<subseteq> insert 32 (set (sub_words legal_forms (sub_punct L
            (sub_words [asc ''cedex''] (sub_parens ?s0)))))"
    using set_sub_spaces by blast
  also have "\<dots> \<subseteq> insert 32 (set (sub_punct L (sub_words [asc ''cedex''] (sub_parens ?s0))))"
    using set_sub_words by blast
  also have "\<dots> \<subseteq> insert 32 (set (sub_words [asc ''cedex''] (sub_parens ?s0)))"
    using set_sub_punct by blast
  also have "\<dots> \<subseteq> insert 32 (set (sub_parens ?s0))"
    using set_sub_words by blast
  also have "\<dots> \<subseteq> insert 32 (set ?s0)"
    using set_sub_parens by blast
  finally show ?thesis .
qed

lemma normalize_name_ascii_lower:
  assumes "\<forall>c \<in> set (py_str name). c < 128"
  shows "\<forall>c \<in> set (normalize_name L name). \<not> ascii_upper c"
proof
  fix c assume "c \<in> set (normalize_name L name)"
  with set_normalize_name
  have "c = 32 \<or> c \<in> set (encode_ascii_ignore (py_nfkd L (py_lower L (py_str name))))"
    by blast
  moreover have "py_nfkd L (py_lower L (py_str name)) = py_lower L (py_str name)"
    using set_py_lower_ascii [OF assms] by (intro py_nfkd_id) simp
  ultimately have "c = 32 \<or> c \<in> set (py_lower L (py_str name))"
    by (auto simp: encode_ascii_ignore_def)
  with set_py_lower_ascii [OF assms] show "\<not> ascii_upper c"
    by (auto simp: ascii_upper_def)
qed

lemma normalize_name_idempotent_ascii:
  assumes "\<forall>c \<in> set (py_str name). c < 128"
  shows "normalize_name L (Str (normalize_name L name)) = normalize_name L name"
  using normalize_name_ascii_lower [OF assms] by (rule normalize_name_idempotent_lower)


section \<open>Scoring\<close>




section \<open>The matcher\<close>

lemma scan_keeps:
  "\<forall>r \<in> set xs. candidate_score L n c r \<le> b \<Longrightarrow> foldl (scan_row L n c) (m, b) xs = (m, b)"
  by (induction xs) (simp_all add: scan_row_def)

lemma scan_first_maximum:
  "\<exists>r \<in> set xs. b < candidate_score L n c r \<Longrightarrow>
   \<exists>i < length xs.
     foldl (scan_row L n c) (m, b) xs = (Some (xs ! i), candidate_score L n c (xs ! i))
     \<and> b < candidate_score L n c (xs ! i)
     \<and> (\<forall>j < length xs. candidate_score L n c (xs ! j) \<le> candidate_score L n c (xs ! i))
     \<and> (\<forall>j < i. candidate_score L n c (xs ! j) < candidate_score L n c (xs ! i))"
proof (induction xs arbitrary: m b)
  case Nil
  then show ?case by simp
next
  case (Cons x xs)
  let ?sc = "candidate_score L n c"
  show ?case
  proof (cases "b < ?sc x")
    case True
    then have step: "foldl (scan_row L n c) (m, b) (x # xs)
        = foldl (scan_row L n c) (Some x, ?sc x) xs"
      by (simp add: scan_row_def)
    show ?thesis
    proof (cases "\<exists>r \<in> set xs. ?sc x < ?sc r")
      case later: True
      from Cons.IH [OF later, of "Some x"] obtain i where i: "i < length xs"
        and res: "foldl (scan_row L n c) (Some x, ?sc x) xs = (Some (xs ! i), ?sc (xs ! i))"
        and gt: "?sc x < ?sc (xs ! i)"
        and mx: "\<forall>j < length xs. ?sc (xs ! j) \<le> ?sc (xs ! i)"
        and fst: "\<forall>j < i. ?sc (xs ! j) < ?sc (xs ! i)"
        by blast
      have "\<forall>j < length (x # xs). ?sc ((x # xs) ! j) \<le> ?sc ((x # xs) ! Suc i)"
        using gt mx by (auto simp: less_Suc_eq_0_disj)
      moreover have "\<forall>j < Suc i. ?sc ((x # xs) ! j) < ?sc ((x # xs) ! Suc i)"
        using gt fst by (auto simp: less_Suc_eq_0_disj)
      moreover have "b < ?sc ((x # xs) ! Suc i)" using True gt by simp
      ultimately show ?thesis using i res step
        by (intro exI [of _ "Suc i"]) simp
    next
      case none: False
      then have "\<forall>r \<in> set xs. ?sc r \<le> ?sc x" by auto
      then have "foldl (scan_row L n c) (Some x, ?sc x) xs = (Some x, ?sc x)"
        by (rule scan_keeps)
      moreover from none have "\<forall>j < length (x # xs). ?sc ((x # xs) ! j) \<le> ?sc x"
        by (auto simp: less_Suc_eq_0_disj not_less)
      ultimately show ?thesis using True step
        by (intro exI [of _ 0]) simp
    qed
  next
    case False
    then have step: "foldl (scan_row L n c) (m, b) (x # xs) = foldl (scan_row L n c) (m, b) xs"
      by (simp add: scan_row_def)
    from Cons.prems False have "\<exists>r \<in> set xs. b < ?sc r" by auto
    from Cons.IH [OF this, of m] obtain i where i: "i < length xs"
      and res: "foldl (scan_row L n c) (m, b) xs = (Some (xs ! i), ?sc (xs ! i))"
      and gt: "b < ?sc (xs ! i)"
      and mx: "\<forall>j < length xs. ?sc (xs ! j) \<le> ?sc (xs ! i)"
      and fst: "\<forall>j < i. ?sc (xs ! j) < ?sc (xs ! i)"
      by blast
    have "\<forall>j < length (x # xs). ?sc ((x # xs) ! j) \<le> ?sc ((x # xs) ! Suc i)"
      using gt mx False by (auto simp: less_Suc_eq_0_disj)
    moreover have "\<forall>j < Suc i. ?sc ((x # xs) ! j) < ?sc ((x # xs) ! Suc i)"
      using gt fst False by (auto simp: less_Suc_eq_0_disj)
    ultimately show ?thesis using i res step gt
      by (intro exI [of _ "Suc i"]) simp
  qed
qed

text \<open>
  For a threshold above \<open>-1\<close>, the initial best score, the matcher returns the first
  candidate that attains the maximum score, with that score, when the maximum reaches
  the threshold, and \<open>None\<close> otherwise. The default threshold \<open>100.0\<close> is of this kind.
\<close>

lemma match_single_company_first_maximum:
  assumes thr: "- 1 < threshold"
  shows
    "(if \<exists>r \<in> set bucket. threshold \<le> real_of_int
            (candidate_score L (normalize_name L client_name) (normalize_name L client_city) r)
      then \<exists>i < length bucket.
        match_single_company L client_name client_city bucket threshold
          = Some (Some (bucket ! i),
              candidate_score L (normalize_name L client_name) (normalize_name L client_city)
                (bucket ! i))
        \<and> (\<forall>j < length bucket.
              candidate_score L (normalize_name L client_name) (normalize_name L client_city)
                (bucket ! j)
              \<le> candidate_score L (normalize_name L client_name) (normalize_name L client_city)
                (bucket ! i))
        \<and> (\<forall>j < i.
              candidate_score L (normalize_name L client_name) (normalize_name L client_city)
                (bucket ! j)
              < candidate_score L (normalize_name L client_name) (normalize_name L client_city)
                (bucket ! i))
      else match_single_company L client_name client_city bucket threshold = None)"
proof -
  let ?n = "normalize_name L client_name" and ?c = "normalize_name L client_city"
  let ?sc = "candidate_score L ?n ?c"
  let ?best = "foldl (scan_row L ?n ?c) (None, - 1) bucket"
  have msc: "match_single_company L client_name client_city bucket threshold
      = (if threshold \<le> real_of_int (snd ?best) then Some ?best else None)"
    by (simp add: match_single_company_def Let_def)
  show ?thesis
  proof (cases "\<exists>r \<in> set bucket. - 1 < ?sc r")
    case True
    from scan_first_maximum [OF True, of None] obtain i where i: "i < length bucket"
      and res: "?best = (Some (bucket ! i), ?sc (bucket ! i))"
      and mx: "\<forall>j < length bucket. ?sc (bucket ! j) \<le> ?sc (bucket ! i)"
      and fst: "\<forall>j < i. ?sc (bucket ! j) < ?sc (bucket ! i)"
      by blast
    show ?thesis
    proof (cases "\<exists>r \<in> set bucket. threshold \<le> real_of_int (?sc r)")
      case acc: True
      then obtain r where "r \<in> set bucket" and r: "threshold \<le> real_of_int (?sc r)" by blast
      then obtain j where "j < length bucket" and "bucket ! j = r"
        by (auto simp: in_set_conv_nth)
      with mx have "?sc r \<le> ?sc (bucket ! i)" by auto
      with r have "threshold \<le> real_of_int (?sc (bucket ! i))" by simp
      with res msc have "match_single_company L client_name client_city bucket threshold
          = Some (Some (bucket ! i), ?sc (bucket ! i))" by simp
      with acc i mx fst show ?thesis by auto
    next
      case rej: False
      with i have "\<not> threshold \<le> real_of_int (?sc (bucket ! i))" by auto
      with res msc rej show ?thesis by simp
    qed
  next
    case False
    then have "\<forall>r \<in> set bucket. ?sc r \<le> - 1" by auto
    then have best: "?best = (None, - 1)" by (rule scan_keeps)
    from False thr have "\<not> (\<exists>r \<in> set bucket. threshold \<le> real_of_int (?sc r))"
      by (fastforce simp: not_less)
    with best msc thr show ?thesis by simp
  qed
qed


subsection \<open>Exact duplicates\<close>







section \<open>The orchestrator\<close>

subsection \<open>Field names and the initial record\<close>

lemma key_values:
  "k_SIRET = [83, 73, 82, 69, 84]"
  "k_SIREN = [83, 73, 82, 69, 78]"
  "k_effectif = [101, 102, 102, 101, 99, 116, 105, 102]"
  "k_nom_match_sirene = [110, 111, 109, 95, 109, 97, 116, 99, 104, 95, 115, 105, 114, 101, 110, 101]"
  "k_score_match = [115, 99, 111, 114, 101, 95, 109, 97, 116, 99, 104]"
  "k_Pays = [80, 97, 121, 115]"
  "k_CP = [67, 80]"
  "k_Societe = [83, 111, 99, 105, 233, 116, 233]"
  "k_Ville = [86, 105, 108, 108, 101]"
  by (simp_all add: k_Pays_def k_CP_def k_SIRET_def k_SIREN_def k_Societe_def k_Ville_def
      k_effectif_def k_nom_match_sirene_def k_score_match_def asc_def)

lemma enrichment_keys_eq:
  "enrichment_keys = {k_SIRET, k_SIREN, k_effectif, k_nom_match_sirene, k_score_match}"
  by (simp add: enrichment_keys_def enrichment_defaults_def)

lemma filter_keys_not_enrichment: "k_Pays \<notin> enrichment_keys" "k_CP \<notin> enrichment_keys"
  by (simp_all add: enrichment_keys_eq key_values)

lemma setdefault_apply:
  "setdefault d k v k' =
     (if k' = k then (case d k of None \<Rightarrow> Some v | Some w \<Rightarrow> Some w) else d k')"
  by (simp add: setdefault_def split: option.splits)

lemma new_rec_apply:
  "new_rec rec k = (case rec k of Some v \<Rightarrow> Some v | None \<Rightarrow> map_of enrichment_defaults k)"
proof -
  consider "k = k_SIRET" | "k = k_SIREN" | "k = k_effectif" | "k = k_nom_match_sirene"
    | "k = k_score_match"
    | "k \<noteq> k_SIRET" "k \<noteq> k_SIREN" "k \<noteq> k_effectif" "k \<noteq> k_nom_match_sirene"
      "k \<noteq> k_score_match"
    by blast
  then show ?thesis
  proof cases
    case 1
    then show ?thesis
      by (simp add: new_rec_def setdefault_apply enrichment_defaults_def key_values
          split: option.splits)
  next
    case 2
    then show ?thesis
      by (simp add: new_rec_def setdefault_apply enrichment_defaults_def key_values
          split: option.splits)
  next
    case 3
    then show ?thesis
      by (simp add: new_rec_def setdefault_apply enrichment_defaults_def key_values
          split: option.splits)
  next
    case 4
    then show ?thesis
      by (simp add: new_rec_def setdefault_apply enrichment_defaults_def key_values
          split: option.splits)
  next
    case 5
    then show ?thesis
      by (simp add: new_rec_def setdefault_apply enrichment_defaults_def key_values
          split: option.splits)
  next
    case 6
    then show ?thesis
      by (simp add: new_rec_def setdefault_apply enrichment_defaults_def
          split: option.splits)
  qed
qed

lemma new_rec_other: "k \<notin> enrichment_keys \<Longrightarrow> new_rec rec k = rec k"
  by (simp add: new_rec_apply enrichment_keys_def map_of_eq_None_iff [THEN iffD2]
      split: option.splits)


subsection \<open>The first loop\<close>

lemma copy_records_spec:
  "\<forall>a \<in> set crm_db. a < length h \<Longrightarrow>
   copy_records h crm_db
     = (h @ map (\<lambda>a. new_rec (h ! a)) crm_db, [length h ..< length h + length crm_db])"
proof (induction crm_db arbitrary: h)
  case Nil
  then show ?case by simp
next
  case (Cons a crm_db)
  let ?h1 = "h @ [new_rec (h ! a)]"
  from Cons.prems have valid: "\<forall>b \<in> set crm_db. b < length ?h1" by auto
  have same: "map (\<lambda>b. new_rec (?h1 ! b)) crm_db = map (\<lambda>b. new_rec (h ! b)) crm_db"
    using Cons.prems by (auto simp: nth_append)
  have idx: "[length h ..< length h + length (a # crm_db)]
      = length h # [length ?h1 ..< length ?h1 + length crm_db]"
    by (subst upt_rec) simp
  have "copy_records h (a # crm_db)
      = (?h1 @ map (\<lambda>b. new_rec (?h1 ! b)) crm_db,
         length h # [length ?h1 ..< length ?h1 + length crm_db])"
    using Cons.IH [OF valid] by simp
  then show ?case by (simp only: same idx) simp
qed

subsection \<open>One client\<close>

lemma set_field_length [simp]: "length (set_field h out i k v) = length h"
  by (simp add: set_field_def)

lemma set_field_other: "a \<noteq> out ! i \<Longrightarrow> set_field h out i k v ! a = h ! a"
  by (simp add: set_field_def)

lemma set_field_same:
  "out ! i < length h \<Longrightarrow> set_field h out i k v ! (out ! i) = (h ! (out ! i))(k \<mapsto> v)"
  by (simp add: set_field_def)

lemma remplir_ligne_orion_frame:
  assumes "remplir_ligne_orion h out i row head name score = Inr h'"
  shows "length h' = length h"
    and "a \<noteq> out ! i \<Longrightarrow> h' ! a = h ! a"
    and "out ! i < length h \<Longrightarrow> k \<notin> enrichment_keys \<Longrightarrow> (h' ! (out ! i)) k = (h ! (out ! i)) k"
    and "out ! i < length h \<Longrightarrow> dom (h ! (out ! i)) \<subseteq> dom (h' ! (out ! i))"
  using assms
  by (auto simp: remplir_ligne_orion_def Let_def set_field_other set_field_same
      enrichment_keys_eq split: option.splits)

lemma update_client_cases:
  assumes "update_client L by_dept head h out i = Inr h'"
  shows "h' = h \<or> (\<exists>row name score. remplir_ligne_orion h out i row head name score = Inr h')"
  using assms
  by (auto simp: update_client_def Let_def
      split: pyval.splits cell.splits option.splits if_splits prod.splits)

lemma update_client_frame:
  assumes "update_client L by_dept head h out i = Inr h'"
  shows "length h' = length h"
    and "a \<noteq> out ! i \<Longrightarrow> h' ! a = h ! a"
    and "out ! i < length h \<Longrightarrow> k \<notin> enrichment_keys \<Longrightarrow> (h' ! (out ! i)) k = (h ! (out ! i)) k"
    and "out ! i < length h \<Longrightarrow> dom (h ! (out ! i)) \<subseteq> dom (h' ! (out ! i))"
  using update_client_cases [OF assms] remplir_ligne_orion_frame
  by (metis, metis, metis, metis subset_refl)

lemma update_client_skip:
  assumes "update_client L by_dept head h out i = Inr h'"
    and "country_filter_fails L (h ! (out ! i)) \<or> by_dept (crm_dept (h ! (out ! i))) = None"
  shows "h' = h"
  using assms
  by (auto simp: update_client_def country_filter_fails_def crm_dept_def Let_def
      split: pyval.splits cell.splits option.splits if_splits)

subsection \<open>The main loop\<close>

text \<open>
  The loop changes the object of the client it handles and no other; it changes no
  field but the five enrichment fields, removes no field, and leaves a skipped client
  as it is.
\<close>

lemma update_clients_inv:
  assumes "update_clients L by_dept head h out js = Inr h'"
    and "distinct js" and "inj_on ((!) out) (set js)"
    and "\<forall>j \<in> set js. out ! j < length h"
  shows "length h' = length h
     \<and> (\<forall>a. a \<notin> (!) out ` set js \<longrightarrow> h' ! a = h ! a)
     \<and> (\<forall>j \<in> set js.
          (\<forall>k. k \<notin> enrichment_keys \<longrightarrow> (h' ! (out ! j)) k = (h ! (out ! j)) k)
          \<and> dom (h ! (out ! j)) \<subseteq> dom (h' ! (out ! j))
          \<and> (country_filter_fails L (h ! (out ! j)) \<or> by_dept (crm_dept (h ! (out ! j))) = None
               \<longrightarrow> h' ! (out ! j) = h ! (out ! j)))"
  using assms
proof (induction js arbitrary: h)
  case Nil
  then show ?case by simp
next
  case (Cons i js)
  from Cons.prems(1) obtain h1 where step: "update_client L by_dept head h out i = Inr h1"
    and rest: "update_clients L by_dept head h1 out js = Inr h'"
    by (auto split: sum.splits)
  note fr = update_client_frame [OF step]
  from Cons.prems have i: "out ! i < length h" and inot: "out ! i \<notin> (!) out ` set js"
    by auto
  have IH: "length h' = length h1
     \<and> (\<forall>a. a \<notin> (!) out ` set js \<longrightarrow> h' ! a = h1 ! a)
     \<and> (\<forall>j \<in> set js.
          (\<forall>k. k \<notin> enrichment_keys \<longrightarrow> (h' ! (out ! j)) k = (h1 ! (out ! j)) k)
          \<and> dom (h1 ! (out ! j)) \<subseteq> dom (h' ! (out ! j))
          \<and> (country_filter_fails L (h1 ! (out ! j)) \<or> by_dept (crm_dept (h1 ! (out ! j))) = None
               \<longrightarrow> h' ! (out ! j) = h1 ! (out ! j)))"
    using Cons.prems fr(1) by (intro Cons.IH [OF rest]) (auto simp: inj_on_def)
  have same: "h1 ! (out ! j) = h ! (out ! j)" if "j \<in> set js" for j
  proof -
    from that Cons.prems(2,3) have "out ! j \<noteq> out ! i" by (auto simp: inj_on_def)
    then show ?thesis by (rule fr(2))
  qed
  have len: "length h' = length h" using IH fr(1) by simp
  have others: "\<forall>a. a \<notin> (!) out ` set (i # js) \<longrightarrow> h' ! a = h ! a"
    using IH fr(2) by auto
  have at_i: "h' ! (out ! i) = h1 ! (out ! i)" using IH inot by blast
  have for_i: "(\<forall>k. k \<notin> enrichment_keys \<longrightarrow> (h' ! (out ! i)) k = (h ! (out ! i)) k)
          \<and> dom (h ! (out ! i)) \<subseteq> dom (h' ! (out ! i))
          \<and> (country_filter_fails L (h ! (out ! i)) \<or> by_dept (crm_dept (h ! (out ! i))) = None
               \<longrightarrow> h' ! (out ! i) = h ! (out ! i))"
    using at_i fr(3,4) [OF i] update_client_skip [OF step] by auto
  have for_js: "\<forall>j \<in> set js.
          (\<forall>k. k \<notin> enrichment_keys \<longrightarrow> (h' ! (out ! j)) k = (h ! (out ! j)) k)
          \<and> dom (h ! (out ! j)) \<subseteq> dom (h' ! (out ! j))
          \<and> (country_filter_fails L (h ! (out ! j)) \<or> by_dept (crm_dept (h ! (out ! j))) = None
               \<longrightarrow> h' ! (out ! j) = h ! (out ! j))"
    using IH same by simp
  from len others for_i for_js show ?case by simp
qed

lemma skip_test_new_rec:
  "country_filter_fails L (new_rec rec) = country_filter_fails L rec"
  "crm_dept (new_rec rec) = crm_dept rec"
  by (simp_all add: country_filter_fails_def crm_dept_def dict_get_def new_rec_other
      filter_keys_not_enrichment)

lemma update_CRM_run:
  assumes valid: "\<forall>a \<in> set crm_db. a < length h"
    and run: "update_CRM L sirene_df h crm_db = Inr (h', crm_updated)"
  shows "crm_updated = [length h ..< length h + length crm_db]"
    and "length h' = length h + length crm_db"
    and "\<forall>a < length h. h' ! a = h ! a"
    and "\<forall>i < length crm_db.
          (\<forall>k. k \<notin> enrichment_keys \<longrightarrow> (h' ! (crm_updated ! i)) k = (h ! (crm_db ! i)) k)
          \<and> dom (new_rec (h ! (crm_db ! i))) \<subseteq> dom (h' ! (crm_updated ! i))
          \<and> (country_filter_fails L (h ! (crm_db ! i)) \<or> no_bucket sirene_df (h ! (crm_db ! i))
               \<longrightarrow> h' ! (crm_updated ! i) = new_rec (h ! (crm_db ! i)))"
proof -
  let ?n = "length h" and ?m = "length crm_db"
  let ?h1 = "h @ map (\<lambda>a. new_rec (h ! a)) crm_db"
  let ?out = "[?n ..< ?n + ?m]"
  let ?head = "filter (\<lambda>r. flag_eq_True (etablissementSiege r)) sirene_df"
  let ?idx = "create_sirene_by_dept sirene_df"
  from run have out: "crm_updated = ?out"
    and loop: "update_clients L ?idx ?head ?h1 ?out [0 ..< ?m] = Inr h'"
    by (auto simp: update_CRM_def Let_def copy_records_spec [OF valid] split: sum.splits)
  have inj: "inj_on ((!) ?out) (set [0 ..< ?m])"
    by (auto simp: inj_on_def)
  have bound: "\<forall>j \<in> set [0 ..< ?m]. ?out ! j < length ?h1" by simp
  from update_clients_inv [OF loop _ inj bound]
  have len: "length h' = length ?h1"
    and others: "\<And>a. a \<notin> (!) ?out ` set [0 ..< ?m] \<Longrightarrow> h' ! a = ?h1 ! a"
    and each: "\<And>j. j < ?m \<Longrightarrow>
          (\<forall>k. k \<notin> enrichment_keys \<longrightarrow> (h' ! (?out ! j)) k = (?h1 ! (?out ! j)) k)
          \<and> dom (?h1 ! (?out ! j)) \<subseteq> dom (h' ! (?out ! j))
          \<and> (country_filter_fails L (?h1 ! (?out ! j)) \<or> ?idx (crm_dept (?h1 ! (?out ! j))) = None
               \<longrightarrow> h' ! (?out ! j) = ?h1 ! (?out ! j))"
    by auto
  have h1_at: "?h1 ! (?out ! j) = new_rec (h ! (crm_db ! j))" if "j < ?m" for j
    using that by (simp add: nth_append)
  show "crm_updated = ?out" by (rule out)
  show "length h' = ?n + ?m" using len by simp
  show "\<forall>a < ?n. h' ! a = h ! a"
  proof (intro allI impI)
    fix a assume a: "a < ?n"
    then have "a \<notin> (!) ?out ` set [0 ..< ?m]" by auto
    then have "h' ! a = ?h1 ! a" by (rule others)
    with a show "h' ! a = h ! a" by (simp add: nth_append)
  qed
  show "\<forall>i < ?m.
          (\<forall>k. k \<notin> enrichment_keys \<longrightarrow> (h' ! (crm_updated ! i)) k = (h ! (crm_db ! i)) k)
          \<and> dom (new_rec (h ! (crm_db ! i))) \<subseteq> dom (h' ! (crm_updated ! i))
          \<and> (country_filter_fails L (h ! (crm_db ! i)) \<or> no_bucket sirene_df (h ! (crm_db ! i))
               \<longrightarrow> h' ! (crm_updated ! i) = new_rec (h ! (crm_db ! i)))"
  proof (intro allI impI)
    fix i assume i: "i < ?m"
    from each [OF i] show
      "(\<forall>k. k \<notin> enrichment_keys \<longrightarrow> (h' ! (crm_updated ! i)) k = (h ! (crm_db ! i)) k)
          \<and> dom (new_rec (h ! (crm_db ! i))) \<subseteq> dom (h' ! (crm_updated ! i))
          \<and> (country_filter_fails L (h ! (crm_db ! i)) \<or> no_bucket sirene_df (h ! (crm_db ! i))
               \<longrightarrow> h' ! (crm_updated ! i) = new_rec (h ! (crm_db ! i)))"
      unfolding out h1_at [OF i]
      by (simp add: new_rec_other skip_test_new_rec no_bucket_def)
  qed
qed




text \<open>
  What a run that returns leaves unchanged: the result has one record for each record
  of the input, in the same order; the objects of the caller are as they were, and the
  records of the result are new objects; every field but the five enrichment fields
  has the value of the input record.
\<close>

lemma update_CRM_frame:
  assumes valid: "\<forall>a \<in> set crm_db. a < length h"
    and run: "update_CRM L sirene_df h crm_db = Inr (h', crm_updated)"
  shows "length crm_updated = length crm_db
     \<and> (\<forall>a < length h. h' ! a = h ! a)
     \<and> (\<forall>i < length crm_db. length h \<le> crm_updated ! i
          \<and> (\<forall>k. k \<notin> enrichment_keys \<longrightarrow> (h' ! (crm_updated ! i)) k = (h ! (crm_db ! i)) k))"
  using update_CRM_run [OF valid run] by simp


text \<open>
  The index of headquarters of a registry read as text is empty: no text flag equals
  \<open>True\<close>.
\<close>

lemma text_flags_give_no_headquarters:
  "filter (\<lambda>r. flag_eq_True (etablissementSiege r)) [csv_hq, csv_secondary] = []"
  by (simp add: csv_hq_def csv_secondary_def cycle_A_def cycle_B_def)

end
